theory Spec2Isabelle
  imports Main "HOL-Library.Char_ord" "HOL-Library.List_Lexorder" "HOL-Library.Multiset"
    "HOL-Library.Word"
begin

section \<open>Go library primitives used by the tunnel subcommands\<close>

subsection \<open>Strings and formatting\<close>

text \<open>
  A Go string is a sequence of bytes; it is modelled as a \<open>string\<close> (a list of 8-bit
  characters). \<open>fmt.Sprintf\<close> with the verb \<open>%d\<close> prints a non-negative integer in
  decimal without padding; \<open>strings.Join\<close> puts the separator between the elements.
\<close>

definition digit_char :: "nat \<Rightarrow> char" where
  "digit_char d = ''0123456789'' ! d"

function fmt_d :: "nat \<Rightarrow> string" where
  "fmt_d n = (if n < 10 then [digit_char n] else fmt_d (n div 10) @ [digit_char (n mod 10)])"
  by pat_completeness auto
termination
  by (relation "measure id") auto

declare fmt_d.simps [simp del]

fun strings_Join :: "string list \<Rightarrow> string \<Rightarrow> string" where
  "strings_Join [] sep = []"
| "strings_Join [x] sep = x"
| "strings_Join (x # y # ys) sep = x @ sep @ strings_Join (y # ys) sep"

subsection \<open>Regular expressions\<close>

text \<open>
  The two patterns of the source use the start-of-text anchor, one or two character
  classes, a starred class and the end-of-text anchor. They are kept as syntax trees and
  given their meaning by a matcher: \<open>rx_ends r s i\<close> lists the positions at which a
  match of the atom \<open>r\<close> that starts at position \<open>i\<close> of \<open>s\<close> can end. Without the
  multi-line flag \<open>$\<close> matches at the end of the text only. \<open>MatchString\<close> reports
  whether the pattern matches somewhere in the string, as \<open>Regexp.MatchString\<close> does.
\<close>

datatype rx_item = Lit char | Span char char

datatype rx = BeginText | EndText | CharClass "rx_item list" | StarClass "rx_item list"

fun in_item :: "char \<Rightarrow> rx_item \<Rightarrow> bool" where
  "in_item c (Lit d) = (c = d)"
| "in_item c (Span lo hi) = (lo \<le> c \<and> c \<le> hi)"

definition in_class :: "rx_item list \<Rightarrow> char \<Rightarrow> bool" where
  "in_class cls c = list_ex (in_item c) cls"

fun rx_ends :: "rx \<Rightarrow> string \<Rightarrow> nat \<Rightarrow> nat list" where
  "rx_ends BeginText s i = (if i = 0 then [i] else [])"
| "rx_ends EndText s i = (if i = length s then [i] else [])"
| "rx_ends (CharClass cls) s i =
     (if i < length s \<and> in_class cls (s ! i) then [Suc i] else [])"
| "rx_ends (StarClass cls) s i =
     map (\<lambda>k. i + k) [0..<Suc (length (takeWhile (in_class cls) (drop i s)))]"

fun rx_seq_ends :: "rx list \<Rightarrow> string \<Rightarrow> nat \<Rightarrow> nat list" where
  "rx_seq_ends [] s i = [i]"
| "rx_seq_ends (r # rs) s i = concat (map (rx_seq_ends rs s) (rx_ends r s i))"

definition MatchString :: "rx list \<Rightarrow> string \<Rightarrow> bool" where
  "MatchString re s = list_ex (\<lambda>i. rx_seq_ends re s i \<noteq> []) [0..<Suc (length s)]"

section \<open>Validator\<close>

text \<open>
  \<^verbatim>\<open>var nameRegex = regexp.MustCompile("^[_a-zA-Z0-9][-_.a-zA-Z0-9]*$")\<close> and
  \<^verbatim>\<open>var hostNameRegex = regexp.MustCompile("^[*_a-zA-Z0-9][-_.a-zA-Z0-9]*$")\<close>.
\<close>

definition nameRegex :: "rx list" where
  "nameRegex =
     [BeginText,
      CharClass [Lit CHR ''_'', Span CHR ''a'' CHR ''z'', Span CHR ''A'' CHR ''Z'',
        Span CHR ''0'' CHR ''9''],
      StarClass [Lit CHR ''-'', Lit CHR ''_'', Lit CHR ''.'', Span CHR ''a'' CHR ''z'',
        Span CHR ''A'' CHR ''Z'', Span CHR ''0'' CHR ''9''],
      EndText]"

definition hostNameRegex :: "rx list" where
  "hostNameRegex =
     [BeginText,
      CharClass [Lit CHR ''*'', Lit CHR ''_'', Span CHR ''a'' CHR ''z'',
        Span CHR ''A'' CHR ''Z'', Span CHR ''0'' CHR ''9''],
      StarClass [Lit CHR ''-'', Lit CHR ''_'', Lit CHR ''.'', Span CHR ''a'' CHR ''z'',
        Span CHR ''A'' CHR ''Z'', Span CHR ''0'' CHR ''9''],
      EndText]"

definition validateName :: "string \<Rightarrow> bool \<Rightarrow> bool" where
  "validateName s allowWildcardSubdomain =
     (if allowWildcardSubdomain then MatchString hostNameRegex s
      else MatchString nameRegex s)"

text \<open>
  The patterns as the specification writes them: \<open>^[_A-Za-z0-9][-_.A-Za-z0-9]*$\<close>, and the
  variant whose first class also has \<open>*\<close>.
\<close>

definition spec_nameRegex :: "rx list" where
  "spec_nameRegex =
     [BeginText,
      CharClass [Lit CHR ''_'', Span CHR ''A'' CHR ''Z'', Span CHR ''a'' CHR ''z'',
        Span CHR ''0'' CHR ''9''],
      StarClass [Lit CHR ''-'', Lit CHR ''_'', Lit CHR ''.'', Span CHR ''A'' CHR ''Z'',
        Span CHR ''a'' CHR ''z'', Span CHR ''0'' CHR ''9''],
      EndText]"

definition spec_wildcardRegex :: "rx list" where
  "spec_wildcardRegex =
     [BeginText,
      CharClass [Lit CHR ''*'', Lit CHR ''_'', Span CHR ''A'' CHR ''Z'',
        Span CHR ''a'' CHR ''z'', Span CHR ''0'' CHR ''9''],
      StarClass [Lit CHR ''-'', Lit CHR ''_'', Lit CHR ''.'', Span CHR ''A'' CHR ''Z'',
        Span CHR ''a'' CHR ''z'', Span CHR ''0'' CHR ''9''],
      EndText]"

text \<open>The same condition on the characters, without a regular expression.\<close>

definition is_alnum :: "char \<Rightarrow> bool" where
  "is_alnum c =
     ((CHR ''A'' \<le> c \<and> c \<le> CHR ''Z'') \<or> (CHR ''a'' \<le> c \<and> c \<le> CHR ''z'') \<or>
      (CHR ''0'' \<le> c \<and> c \<le> CHR ''9''))"

definition name_first :: "bool \<Rightarrow> char \<Rightarrow> bool" where
  "name_first wildcard c = (c = CHR ''_'' \<or> is_alnum c \<or> (wildcard \<and> c = CHR ''*''))"

definition name_rest :: "char \<Rightarrow> bool" where
  "name_rest c = (c = CHR ''-'' \<or> c = CHR ''_'' \<or> c = CHR ''.'' \<or> is_alnum c)"

definition name_shape :: "bool \<Rightarrow> string \<Rightarrow> bool" where
  "name_shape wildcard s =
     (case s of [] \<Rightarrow> False | c # cs \<Rightarrow> name_first wildcard c \<and> list_all name_rest cs)"


text \<open>
  \<open>validateHostname\<close> first calls \<open>ToASCII\<close> of the profile
  \<^verbatim>\<open>idna.New(idna.ValidateLabels(true), idna.VerifyDNSLength(true))\<close> of
  \<open>golang.org/x/net/idna\<close>. That library is not part of this repository, so the transform is
  a parameter \<open>toASCII\<close> of the model: it returns the error or the normalised string.
\<close>

datatype idna_error = LabelError string string

type_synonym idna_profile = "string \<Rightarrow> idna_error + string"

definition validateHostname :: "idna_profile \<Rightarrow> string \<Rightarrow> bool \<Rightarrow> bool" where
  "validateHostname toASCII s allowWildcardSubdomain =
     (case toASCII s of
        Inl err \<Rightarrow> False
      | Inr puny \<Rightarrow> validateName puny allowWildcardSubdomain)"

text \<open>
  A transform used to instantiate the parameter: it accepts a non-empty string of at most
  253 bytes, all of them printable ASCII, and returns it unchanged.
\<close>

definition ascii_only_profile :: idna_profile where
  "ascii_only_profile s =
     (if s \<noteq> [] \<and> length s \<le> 253 \<and> list_all (\<lambda>c. CHR '' '' < c \<and> c < CHR 0x7F) s
      then Inr s else Inl (LabelError s ''A4''))"

section \<open>Route builder\<close>

text \<open>
  The part of \<open>cli.Context\<close> that the handlers read: the positional arguments and the
  values of the flags by name. \<open>c.Args().Get(n)\<close> is the empty string when there is no
  such argument; a flag that is not registered under the name reads as the zero value
  (\<open>false\<close>, the empty string, a nil timestamp). A \<open>time.Time\<close> is the seconds since the
  Unix epoch, which \<open>Unix()\<close> returns, and the nanoseconds within the second.
\<close>

record Time =
  sec :: int
  nsec :: nat

definition Time_Unix :: "Time \<Rightarrow> int" where
  "Time_Unix t = sec t"

record Context =
  args :: "string list"
  bool_flags :: "string \<rightharpoonup> bool"
  string_flags :: "string \<rightharpoonup> string"
  timestamp_flags :: "string \<rightharpoonup> Time"

text \<open>A context with the given positional arguments and no flag set.\<close>

definition ctx_of_args :: "string list \<Rightarrow> Context" where
  "ctx_of_args as =
     \<lparr>args = as, bool_flags = Map.empty, string_flags = Map.empty, timestamp_flags = Map.empty\<rparr>"

definition NArg :: "Context \<Rightarrow> nat" where
  "NArg c = length (args c)"

definition Args_Get :: "Context \<Rightarrow> nat \<Rightarrow> string" where
  "Args_Get c n = (if n < length (args c) then args c ! n else [])"

definition ctx_Bool :: "Context \<Rightarrow> string \<Rightarrow> bool" where
  "ctx_Bool c name = (case bool_flags c name of Some b \<Rightarrow> b | None \<Rightarrow> False)"

definition ctx_String :: "Context \<Rightarrow> string \<Rightarrow> string" where
  "ctx_String c name = (case string_flags c name of Some s \<Rightarrow> s | None \<Rightarrow> [])"

definition ctx_Timestamp :: "Context \<Rightarrow> string \<Rightarrow> Time option" where
  "ctx_Timestamp c name = timestamp_flags c name"

text \<open>
  Errors are values. \<open>UsageError\<close> is \<open>cliutil.UsageError\<close> with its formatted message,
  \<open>Errorf\<close> is an error made by \<open>errors.Errorf\<close> or \<open>fmt.Errorf\<close> with its message,
  \<open>Wrap\<close> is \<open>errors.Wrap\<close>, and \<open>PathError\<close> is the error of a file operation: the
  operation, the path and the error number.
\<close>

datatype errno = ENOENT | EACCES | ENOTDIR | EROFS | ENOSPC | EIO

datatype error =
    UsageError string
  | Errorf string
  | Wrap error string
  | PathError string string errno
  | ParseError string

text \<open>
  Modelled from the spec: the package \<open>tunnelstore\<close> is not among the sources. A route is
  one of two shapes, \<open>DNSRoute{Hostname, OverwriteExisting}\<close> made by \<open>NewDNSRoute\<close> and
  \<open>LBRoute{Hostname, PoolName}\<close> made by \<open>NewLBRoute\<close>.
\<close>

datatype Route = DNSRoute string bool | LBRoute string string

definition NewDNSRoute :: "string \<Rightarrow> bool \<Rightarrow> Route" where
  "NewDNSRoute userHostname overwriteExisting = DNSRoute userHostname overwriteExisting"

definition NewLBRoute :: "string \<Rightarrow> string \<Rightarrow> Route" where
  "NewLBRoute lbName lbPool = LBRoute lbName lbPool"

definition dnsRouteFromArg :: "idna_profile \<Rightarrow> Context \<Rightarrow> bool \<Rightarrow> error + Route" where
  "dnsRouteFromArg toASCII c overwriteExisting =
     (let userHostnameIndex = 2; expectedNArgs = 3 in
      if NArg c \<noteq> expectedNArgs
      then Inl (UsageError (''Expected '' @ fmt_d expectedNArgs @ '' arguments, got '' @
                  fmt_d (NArg c)))
      else
        let userHostname = Args_Get c userHostnameIndex in
        if userHostname = [] then Inl (UsageError ''The third argument should be the hostname'')
        else if \<not> validateHostname toASCII userHostname True
        then Inl (Errorf (userHostname @ '' is not a valid hostname''))
        else Inr (NewDNSRoute userHostname overwriteExisting))"

definition lbRouteFromArg :: "idna_profile \<Rightarrow> Context \<Rightarrow> error + Route" where
  "lbRouteFromArg toASCII c =
     (let lbNameIndex = 2; lbPoolIndex = 3; expectedNArgs = 4 in
      if NArg c \<noteq> expectedNArgs
      then Inl (UsageError (''Expected '' @ fmt_d expectedNArgs @ '' arguments, got '' @
                  fmt_d (NArg c)))
      else
        let lbName = Args_Get c lbNameIndex in
        if lbName = []
        then Inl (UsageError ''The third argument should be the load balancer name'')
        else if \<not> validateHostname toASCII lbName True
        then Inl (Errorf (lbName @ '' is not a valid load balancer name''))
        else
          let lbPool = Args_Get c lbPoolIndex in
          if lbPool = [] then Inl (UsageError ''The fourth argument should be the pool name'')
          else if \<not> validateName lbPool False
          then Inl (Errorf (lbPool @ '' is not a valid pool name''))
          else Inr (NewLBRoute lbName lbPool))"

section \<open>Renderer: connections per location\<close>

text \<open>
  Modelled from the spec: the type \<open>tunnelstore.Connection\<close> is not among the sources. A
  connection has the name of its location, the origin address and the mark of a
  connection that recently disconnected and is being retried.
\<close>

record Connection =
  ColoName :: string
  OriginIP :: string
  IsPendingReconnect :: bool

text \<open>
  The map \<open>numConnsPerColo\<close> is kept as an association list with one entry per key.
  Reading a key that is absent gives zero, and \<open>m[k]++\<close> adds the key when it is absent.
  A count never exceeds the number of connections, which is the length of a slice, so the
  unsigned counter cannot wrap and is a natural number here.
\<close>

fun map_get :: "(string \<times> nat) list \<Rightarrow> string \<Rightarrow> nat" where
  "map_get [] k = 0"
| "map_get ((k', n) # m) k = (if k' = k then n else map_get m k)"

fun map_incr :: "(string \<times> nat) list \<Rightarrow> string \<Rightarrow> (string \<times> nat) list" where
  "map_incr [] k = [(k, 1)]"
| "map_incr ((k', n) # m) k = (if k' = k then (k', n + 1) # m else (k', n) # map_incr m k)"

text \<open>
  The first loop of \<open>fmtConnections\<close>:
  \<^verbatim>\<open>if !connection.IsPendingReconnect || showRecentlyDisconnected { numConnsPerColo[connection.ColoName]++ }\<close>
\<close>

fun count_per_colo ::
  "Connection list \<Rightarrow> bool \<Rightarrow> (string \<times> nat) list \<Rightarrow> (string \<times> nat) list" where
  "count_per_colo [] showRecentlyDisconnected m = m"
| "count_per_colo (connection # rest) showRecentlyDisconnected m =
     count_per_colo rest showRecentlyDisconnected
       (if \<not> IsPendingReconnect connection \<or> showRecentlyDisconnected
        then map_incr m (ColoName connection) else m)"

text \<open>
  \<open>sort.Strings\<close> puts strings in increasing order, comparing them byte by byte. A list of
  strings has one increasing arrangement, so the library's algorithm does not matter and
  the sorting function of the HOL library stands for it. The keys of a Go map come in no
  fixed order; they are sorted before they are used (see \<open>sort_Strings_any_order\<close>), so
  the model takes them in the order of the association list.
\<close>

definition sort_Strings :: "string list \<Rightarrow> string list" where
  "sort_Strings xs = sort xs"

definition fmtConnections :: "Connection list \<Rightarrow> bool \<Rightarrow> string" where
  "fmtConnections connections showRecentlyDisconnected =
     (let numConnsPerColo = count_per_colo connections showRecentlyDisconnected [];
          sortedColos = sort_Strings (map fst numConnsPerColo);
          output = map (\<lambda>coloName. fmt_d (map_get numConnsPerColo coloName) @ ''x'' @ coloName)
                     sortedColos
      in strings_Join output '', '')"

text \<open>
  The description of the result in the words of the specification: a connection counts
  when it is not pending reconnect or when recently disconnected connections are shown;
  each location with a counted connection gets the entry \<open><count>x<colo>\<close>; the entries are
  in the order of the location names and joined with a comma and a space.
\<close>

definition counted :: "bool \<Rightarrow> Connection \<Rightarrow> bool" where
  "counted showRecentlyDisconnected c = (\<not> IsPendingReconnect c \<or> showRecentlyDisconnected)"

definition colo_count :: "Connection list \<Rightarrow> bool \<Rightarrow> string \<Rightarrow> nat" where
  "colo_count connections showRecentlyDisconnected colo =
     length (filter (\<lambda>c. counted showRecentlyDisconnected c \<and> ColoName c = colo) connections)"

definition colo_names :: "Connection list \<Rightarrow> bool \<Rightarrow> string list" where
  "colo_names connections showRecentlyDisconnected =
     sorted_list_of_set (ColoName ` set (filter (counted showRecentlyDisconnected) connections))"

definition conn :: "string \<Rightarrow> bool \<Rightarrow> Connection" where
  "conn colo pending = \<lparr>ColoName = colo, OriginIP = ''198.51.100.1'', IsPendingReconnect = pending\<rparr>"

section \<open>Credential writer\<close>

text \<open>
  The file system as \<open>writeTunnelCredentials\<close> sees it. A file has its bytes and its
  permission bits (\<open>os.FileMode\<close>, 32 bits). \<open>os.Stat\<close> fails with \<open>ENOENT\<close> when there is
  no file at the path and can fail with another error number (a directory of the path
  that cannot be searched, say) whether or not the file is there; \<open>stat_failure\<close> gives
  the paths where it does. \<open>ioutil.WriteFile\<close> opens the file for writing, creating it
  with the permission bits it is given less the bits of the process's umask, or
  truncating it when it exists, then writes the bytes; \<open>write_failure\<close> gives the paths
  where opening fails, or where writing fails after a number of bytes. \<open>write_calls\<close>
  counts the calls of \<open>ioutil.WriteFile\<close>, so that an attempt to write shows in the
  state even when it changes no file.
\<close>

record File =
  contents :: string
  mode :: "32 word"

text \<open>Permission bits are read in octal: \<open>octal [4, 0, 0]\<close> is the number written 0400.\<close>

definition octal :: "nat list \<Rightarrow> 32 word" where
  "octal ds = of_nat (foldl (\<lambda>a d. 8 * a + d) 0 ds)"

datatype write_fault = OpenFails errno | WriteFails errno nat

record FileSystem =
  files :: "string \<rightharpoonup> File"
  umask :: "32 word"
  stat_failure :: "string \<rightharpoonup> errno"
  write_failure :: "string \<rightharpoonup> write_fault"
  write_calls :: nat

definition os_Stat :: "FileSystem \<Rightarrow> string \<Rightarrow> error + File" where
  "os_Stat fs name =
     (case stat_failure fs name of
        Some e \<Rightarrow> Inl (PathError ''stat'' name e)
      | None \<Rightarrow>
          (case files fs name of
             None \<Rightarrow> Inl (PathError ''stat'' name ENOENT)
           | Some f \<Rightarrow> Inr f))"

fun os_IsNotExist :: "error \<Rightarrow> bool" where
  "os_IsNotExist (PathError opn name e) = (e = ENOENT)"
| "os_IsNotExist err = False"

definition create_or_truncate :: "FileSystem \<Rightarrow> string \<Rightarrow> string \<Rightarrow> 32 word \<Rightarrow> FileSystem" where
  "create_or_truncate fs name body perm =
     fs\<lparr>files := (files fs)(name \<mapsto>
          (case files fs name of
             None \<Rightarrow> \<lparr>contents = body, mode = and perm (not (umask fs))\<rparr>
           | Some f \<Rightarrow> f\<lparr>contents := body\<rparr>))\<rparr>"

definition ioutil_WriteFile ::
  "FileSystem \<Rightarrow> string \<Rightarrow> string \<Rightarrow> 32 word \<Rightarrow> error option \<times> FileSystem" where
  "ioutil_WriteFile fs name body perm =
     (let fs = fs\<lparr>write_calls := Suc (write_calls fs)\<rparr> in
      case write_failure fs name of
        Some (OpenFails e) \<Rightarrow> (Some (PathError ''open'' name e), fs)
      | Some (WriteFails e n) \<Rightarrow>
          (Some (PathError ''write'' name e), create_or_truncate fs name (take n body) perm)
      | None \<Rightarrow> (None, create_or_truncate fs name body perm))"

text \<open>
  \<open>json.Marshal\<close> of the credentials (\<open>connection.Credentials\<close>, which is not among the
  sources) is a parameter: it gives the bytes or an error. The permission argument is
  the source's literal \<^verbatim>\<open>400\<close>, a decimal number.
\<close>

definition writeTunnelCredentials ::
  "('cred \<Rightarrow> error + string) \<Rightarrow> FileSystem \<Rightarrow> string \<Rightarrow> 'cred \<Rightarrow> error option \<times> FileSystem" where
  "writeTunnelCredentials json_Marshal fs filePath credentials =
     (case os_Stat fs filePath of
        Inr info \<Rightarrow> (Some (Errorf (filePath @ '' already exists'')), fs)
      | Inl err \<Rightarrow>
          if \<not> os_IsNotExist err then (Some err, fs)
          else
            (case json_Marshal credentials of
               Inl err \<Rightarrow> (Some (Wrap err ''Unable to marshal tunnel credentials to JSON''), fs)
             | Inr body \<Rightarrow> ioutil_WriteFile fs filePath body 400))"

text \<open>Values used in the examples: an encoder, and a file system with one file.\<close>

definition json_of_secret :: "string \<Rightarrow> error + string" where
  "json_of_secret secret = Inr (''{\"TunnelSecret\":\"'' @ secret @ ''\"}'')"

definition fs_example :: FileSystem where
  "fs_example =
     \<lparr>files = [''/home/u/.cloudflared/a.json'' \<mapsto> \<lparr>contents = ''{}'', mode = octal [6, 0, 0]\<rparr>],
      umask = octal [0, 2, 2],
      stat_failure = Map.empty,
      write_failure = [''/ro/c.json'' \<mapsto> OpenFails EROFS],
      write_calls = 0\<rparr>"

text \<open>
  The same file system when a directory of the path of its file cannot be searched:
  \<open>os.Stat\<close> fails on the path with \<open>EACCES\<close>.
\<close>

definition fs_unsearchable :: FileSystem where
  "fs_unsearchable =
     fs_example\<lparr>stat_failure := [''/home/u/.cloudflared/a.json'' \<mapsto> EACCES]\<rparr>"

section \<open>The list command: flags and filter\<close>

text \<open>
  A command registers its flags; a flag has a name and aliases, and a string flag has a
  default value. All the names of a flag read the same value. \<open>new_Context\<close> is the
  context of a command before any flag is given on the command line; \<open>set_Bool\<close>,
  \<open>set_String\<close> and \<open>set_Timestamp\<close> give a flag a value, as the command line does when
  the flag is written with one of its names, and fail when no flag of that kind has the
  name.
\<close>

datatype Flag =
    BoolFlag "string list"
  | StringFlag "string list" string
  | TimestampFlag "string list"

fun bind_all :: "string list \<Rightarrow> 'v \<Rightarrow> (string \<rightharpoonup> 'v) \<Rightarrow> (string \<rightharpoonup> 'v)" where
  "bind_all [] v m = m"
| "bind_all (n # ns) v m = bind_all ns v (m(n \<mapsto> v))"

fun register :: "Flag \<Rightarrow> Context \<Rightarrow> Context" where
  "register (BoolFlag names) c = c\<lparr>bool_flags := bind_all names False (bool_flags c)\<rparr>"
| "register (StringFlag names dflt) c = c\<lparr>string_flags := bind_all names dflt (string_flags c)\<rparr>"
| "register (TimestampFlag names) c = c"

definition new_Context :: "Flag list \<Rightarrow> string list \<Rightarrow> Context" where
  "new_Context flags as = fold register flags (ctx_of_args as)"

fun set_Bool :: "Flag list \<Rightarrow> string \<Rightarrow> bool \<Rightarrow> Context \<Rightarrow> error + Context" where
  "set_Bool [] name v c = Inl (Errorf (''flag provided but not defined: -'' @ name))"
| "set_Bool (BoolFlag names # flags) name v c =
     (if name \<in> set names then Inr (c\<lparr>bool_flags := bind_all names v (bool_flags c)\<rparr>)
      else set_Bool flags name v c)"
| "set_Bool (f # flags) name v c = set_Bool flags name v c"

fun set_String :: "Flag list \<Rightarrow> string \<Rightarrow> string \<Rightarrow> Context \<Rightarrow> error + Context" where
  "set_String [] name v c = Inl (Errorf (''flag provided but not defined: -'' @ name))"
| "set_String (StringFlag names dflt # flags) name v c =
     (if name \<in> set names then Inr (c\<lparr>string_flags := bind_all names v (string_flags c)\<rparr>)
      else set_String flags name v c)"
| "set_String (f # flags) name v c = set_String flags name v c"

fun set_Timestamp :: "Flag list \<Rightarrow> string \<Rightarrow> Time \<Rightarrow> Context \<Rightarrow> error + Context" where
  "set_Timestamp [] name v c = Inl (Errorf (''flag provided but not defined: -'' @ name))"
| "set_Timestamp (TimestampFlag names # flags) name v c =
     (if name \<in> set names
      then Inr (c\<lparr>timestamp_flags := bind_all names v (timestamp_flags c)\<rparr>)
      else set_Timestamp flags name v c)"
| "set_Timestamp (f # flags) name v c = set_Timestamp flags name v c"

text \<open>
  The flags of \<open>buildListCommand\<close> and of \<open>buildInfoCommand\<close>, in the source's order. The
  flag variable \<open>showRecentlyDisconnected\<close> is \<open>showRecentlyDisconnected_flag\<close> here, since
  the parameter of \<open>fmtConnections\<close> has the same name.
\<close>

definition outputFormatFlag :: Flag where
  "outputFormatFlag = StringFlag [''output'', ''o''] []"

definition showDeletedFlag :: Flag where
  "showDeletedFlag = BoolFlag [''show-deleted'', ''d'']"

definition listNameFlag :: Flag where
  "listNameFlag = StringFlag [''name'', ''n''] []"

definition listExistedAtFlag :: Flag where
  "listExistedAtFlag = TimestampFlag [''when'', ''w'']"

definition listIDFlag :: Flag where
  "listIDFlag = StringFlag [''id'', ''i''] []"

definition showRecentlyDisconnected_flag :: Flag where
  "showRecentlyDisconnected_flag = BoolFlag [''show-recently-disconnected'', ''rd'']"

definition sortByFlag :: Flag where
  "sortByFlag = StringFlag [''sort-by''] ''name''"

definition invertSortFlag :: Flag where
  "invertSortFlag = BoolFlag [''invert-sort'']"

definition sortInfoByFlag :: Flag where
  "sortInfoByFlag = StringFlag [''sort-by''] ''createdAt''"

definition invertInfoSortFlag :: Flag where
  "invertInfoSortFlag = BoolFlag [''invert-sort'']"

definition listCommand_Flags :: "Flag list" where
  "listCommand_Flags =
     [outputFormatFlag, showDeletedFlag, listNameFlag, listExistedAtFlag, listIDFlag,
      showRecentlyDisconnected_flag, sortByFlag, invertSortFlag]"

definition tunnelInfo_Flags :: "Flag list" where
  "tunnelInfo_Flags =
     [outputFormatFlag, showRecentlyDisconnected_flag, sortInfoByFlag, invertInfoSortFlag]"

text \<open>
  A tunnel ID is a \<open>uuid.UUID\<close>, sixteen bytes; \<open>String()\<close> writes them in hexadecimal in
  groups of 4, 2, 2, 2 and 6 bytes with dashes between. \<open>uuid.Parse\<close> is the library's
  and is a parameter of the model.
\<close>

type_synonym UUID = "8 word list"

definition hex_byte :: "8 word \<Rightarrow> string" where
  "hex_byte b = [''0123456789abcdef'' ! (unat b div 16), ''0123456789abcdef'' ! (unat b mod 16)]"

definition hex :: "8 word list \<Rightarrow> string" where
  "hex bs = concat (map hex_byte bs)"

definition UUID_String :: "UUID \<Rightarrow> string" where
  "UUID_String u =
     hex (take 4 u) @ ''-'' @ hex (take 2 (drop 4 u)) @ ''-'' @ hex (take 2 (drop 6 u)) @ ''-'' @
     hex (take 2 (drop 8 u)) @ ''-'' @ hex (take 6 (drop 10 u))"

text \<open>
  Modelled from the spec: the type \<open>tunnelstore.Filter\<close> is not among the sources. A filter
  accumulates predicates that the listing call combines by conjunction: no deleted
  tunnels, a literal name, existence at a point in time, one tunnel ID. Each setter
  overwrites what an earlier call of it set.
\<close>

record Filter =
  noDeleted :: bool
  byName :: "string option"
  byExistedAt :: "Time option"
  byTunnelID :: "UUID option"

definition NewFilter :: Filter where
  "NewFilter = \<lparr>noDeleted = False, byName = None, byExistedAt = None, byTunnelID = None\<rparr>"

definition NoDeleted :: "Filter \<Rightarrow> Filter" where
  "NoDeleted f = f\<lparr>noDeleted := True\<rparr>"

definition ByName :: "Filter \<Rightarrow> string \<Rightarrow> Filter" where
  "ByName f name = f\<lparr>byName := Some name\<rparr>"

definition ByExistedAt :: "Filter \<Rightarrow> Time \<Rightarrow> Filter" where
  "ByExistedAt f existedAt = f\<lparr>byExistedAt := Some existedAt\<rparr>"

definition ByTunnelID :: "Filter \<Rightarrow> UUID \<Rightarrow> Filter" where
  "ByTunnelID f tunnelID = f\<lparr>byTunnelID := Some tunnelID\<rparr>"

text \<open>
  The part of \<open>listCommand\<close> that builds the filter passed to \<open>sc.list\<close>. It returns the
  error of a tunnel ID that does not parse, or the filter.
\<close>

definition listCommand_filter :: "(string \<Rightarrow> error + UUID) \<Rightarrow> Context \<Rightarrow> error + Filter" where
  "listCommand_filter uuid_Parse c =
     (let filter = NewFilter;
          filter = (if \<not> ctx_Bool c ''show-deleted'' then NoDeleted filter else filter);
          name = ctx_String c ''name'';
          filter = (if name \<noteq> [] then ByName filter name else filter);
          filter = (case ctx_Timestamp c ''time'' of
                      Some existedAt \<Rightarrow> ByExistedAt filter existedAt
                    | None \<Rightarrow> filter);
          id = ctx_String c ''id''
      in if id \<noteq> [] then
           (case uuid_Parse id of
              Inl err \<Rightarrow> Inl (Wrap err (id @ '' is not a valid tunnel ID''))
            | Inr tunnelID \<Rightarrow> Inr (ByTunnelID filter tunnelID))
         else Inr filter)"

text \<open>A parser of tunnel IDs for the examples: it accepts nothing.\<close>

definition no_uuid :: "string \<Rightarrow> error + UUID" where
  "no_uuid s = Inl (ParseError (''invalid UUID length: '' @ fmt_d (length s)))"

definition june_2021 :: Time where
  "june_2021 = \<lparr>sec = 1622505600, nsec = 0\<rparr>"

text \<open>The context of \<open>cloudflared tunnel list --when 2021-06-01T00:00:00Z\<close>.\<close>

definition list_when_june :: Context where
  "list_when_june =
     (new_Context listCommand_Flags [])\<lparr>timestamp_flags := [''when'' \<mapsto> june_2021, ''w'' \<mapsto> june_2021]\<rparr>"


section \<open>Sort engine\<close>

subsection \<open>The library's \<open>sort.Slice\<close>\<close>

text \<open>
  \<open>sort.Slice(x, less)\<close> sorts the slice in place; it is not stable. The result on
  elements that the comparison does not tell apart depends on the algorithm, so the
  model follows the algorithm of the Go releases of the time of this source (up to Go
  1.18; \<open>sort/zfuncversion.go\<close>): a quicksort on ranges of more than 12 elements, with a
  heapsort when the recursion gets too deep, and on a range of at most 12 elements one
  pass that compares elements six apart, then an insertion sort.

  The function \<open>less\<close> of the source (\<open>lessFn\<close> here) is a closure: it compares two
  elements of the slice and may write a variable it captured. In the model it takes two
  elements and the captured state and returns the result and the new state. The data of
  a run (\<open>lessSwap\<close>) is the slice with that state; \<open>Less i j\<close> calls the closure on the
  elements at \<open>i\<close> and \<open>j\<close>, \<open>Swap i j\<close> exchanges them. Indices are natural numbers: in
  every run of these functions from \<open>sort_Slice\<close> the indices stay inside the slice and
  the source's differences are not negative.
\<close>

type_synonym ('a, 's) lessSwap = "'a list \<times> 's"

definition Less ::
  "('a \<Rightarrow> 'a \<Rightarrow> 's \<Rightarrow> bool \<times> 's) \<Rightarrow> ('a, 's) lessSwap \<Rightarrow> nat \<Rightarrow> nat \<Rightarrow> bool \<times> ('a, 's) lessSwap" where
  "Less lessFn data i j =
     (case lessFn (fst data ! i) (fst data ! j) (snd data) of (r, s) \<Rightarrow> (r, (fst data, s)))"

definition Swap :: "('a, 's) lessSwap \<Rightarrow> nat \<Rightarrow> nat \<Rightarrow> ('a, 's) lessSwap" where
  "Swap data i j = ((fst data)[i := fst data ! j, j := fst data ! i], snd data)"

text \<open>
  \<^verbatim>\<open>for i := a + 1; i < b; i++ { for j := i; j > a && data.Less(j, j-1); j-- { data.Swap(j, j-1) } }\<close>
\<close>

function insertionSort_inner ::
  "('a \<Rightarrow> 'a \<Rightarrow> 's \<Rightarrow> bool \<times> 's) \<Rightarrow> ('a, 's) lessSwap \<Rightarrow> nat \<Rightarrow> nat \<Rightarrow> ('a, 's) lessSwap" where
  "insertionSort_inner lessFn data a j =
     (if j > a then
        (case Less lessFn data j (j - 1) of
           (r, data) \<Rightarrow>
             if r then insertionSort_inner lessFn (Swap data j (j - 1)) a (j - 1) else data)
      else data)"
  by pat_completeness auto
termination
  by (relation "measure (\<lambda>(lessFn, data, a, j). j)") auto

declare insertionSort_inner.simps [simp del]

function insertionSort_loop ::
  "('a \<Rightarrow> 'a \<Rightarrow> 's \<Rightarrow> bool \<times> 's) \<Rightarrow> ('a, 's) lessSwap \<Rightarrow> nat \<Rightarrow> nat \<Rightarrow> nat \<Rightarrow> ('a, 's) lessSwap" where
  "insertionSort_loop lessFn data a b i =
     (if i < b then insertionSort_loop lessFn (insertionSort_inner lessFn data a i) a b (i + 1)
      else data)"
  by pat_completeness auto
termination
  by (relation "measure (\<lambda>(lessFn, data, a, b, i). b - i)") auto

declare insertionSort_loop.simps [simp del]

definition insertionSort_func ::
  "('a \<Rightarrow> 'a \<Rightarrow> 's \<Rightarrow> bool \<times> 's) \<Rightarrow> ('a, 's) lessSwap \<Rightarrow> nat \<Rightarrow> nat \<Rightarrow> ('a, 's) lessSwap" where
  "insertionSort_func lessFn data a b = insertionSort_loop lessFn data a b (a + 1)"

text \<open>
  \<open>siftDown_func(data, lo, hi, first)\<close>; the loop variable \<open>root\<close> starts at \<open>lo\<close>.
  \<open>siftDown_child\<close> is the choice of the child:
  \<^verbatim>\<open>if child+1 < hi && data.Less(first+child, first+child+1) { child++ }\<close>
\<close>

definition siftDown_child ::
  "('a \<Rightarrow> 'a \<Rightarrow> 's \<Rightarrow> bool \<times> 's) \<Rightarrow> ('a, 's) lessSwap \<Rightarrow> nat \<Rightarrow> nat \<Rightarrow> nat \<Rightarrow> nat \<times> ('a, 's) lessSwap" where
  "siftDown_child lessFn data child hi first =
     (if child + 1 < hi then
        (case Less lessFn data (first + child) (first + child + 1) of
           (r, data) \<Rightarrow> if r then (child + 1, data) else (child, data))
      else (child, data))"

lemma siftDown_child_bounds:
  "siftDown_child lessFn data child hi first = (child', data') \<Longrightarrow> child < hi \<Longrightarrow>
     child \<le> child' \<and> child' < hi"
  by (auto simp: siftDown_child_def split: if_splits prod.splits)

function siftDown_func ::
  "('a \<Rightarrow> 'a \<Rightarrow> 's \<Rightarrow> bool \<times> 's) \<Rightarrow> ('a, 's) lessSwap \<Rightarrow> nat \<Rightarrow> nat \<Rightarrow> nat \<Rightarrow> ('a, 's) lessSwap" where
  "siftDown_func lessFn data root hi first =
     (let child = 2 * root + 1 in
      if child \<ge> hi then data
      else
        (case siftDown_child lessFn data child hi first of
           (child, data) \<Rightarrow>
             (case Less lessFn data (first + root) (first + child) of
                (r, data) \<Rightarrow>
                  if \<not> r then data
                  else siftDown_func lessFn (Swap data (first + root) (first + child))
                         child hi first)))"
  by pat_completeness auto
termination
  apply (relation "measure (\<lambda>(lessFn, data, root, hi, first). hi - root)")
   apply simp
  apply (auto dest!: siftDown_child_bounds [OF sym])
  done

declare siftDown_func.simps [simp del]

text \<open>
  \<^verbatim>\<open>for i := (hi - 1) / 2; i >= 0; i-- { siftDown_func(data, i, hi, first) }\<close> and
  \<^verbatim>\<open>for i := hi - 1; i >= 0; i-- { data.Swap(first, first+i); siftDown_func(data, lo, i, first) }\<close>,
  both counting down to zero.
\<close>

fun heapSort_build ::
  "('a \<Rightarrow> 'a \<Rightarrow> 's \<Rightarrow> bool \<times> 's) \<Rightarrow> ('a, 's) lessSwap \<Rightarrow> nat \<Rightarrow> nat \<Rightarrow> nat \<Rightarrow> ('a, 's) lessSwap" where
  "heapSort_build lessFn data 0 hi first = siftDown_func lessFn data 0 hi first"
| "heapSort_build lessFn data (Suc i) hi first =
     heapSort_build lessFn (siftDown_func lessFn data (Suc i) hi first) i hi first"

fun heapSort_pop ::
  "('a \<Rightarrow> 'a \<Rightarrow> 's \<Rightarrow> bool \<times> 's) \<Rightarrow> ('a, 's) lessSwap \<Rightarrow> nat \<Rightarrow> nat \<Rightarrow> ('a, 's) lessSwap" where
  "heapSort_pop lessFn data 0 first = siftDown_func lessFn (Swap data first (first + 0)) 0 0 first"
| "heapSort_pop lessFn data (Suc i) first =
     heapSort_pop lessFn
       (siftDown_func lessFn (Swap data first (first + Suc i)) 0 (Suc i) first) i first"

definition heapSort_func ::
  "('a \<Rightarrow> 'a \<Rightarrow> 's \<Rightarrow> bool \<times> 's) \<Rightarrow> ('a, 's) lessSwap \<Rightarrow> nat \<Rightarrow> nat \<Rightarrow> ('a, 's) lessSwap" where
  "heapSort_func lessFn data a b =
     (let first = a; hi = b - a;
          data = heapSort_build lessFn data ((hi - 1) div 2) hi first
      in if hi = 0 then data else heapSort_pop lessFn data (hi - 1) first)"

text \<open>
  \<open>medianOfThree_func(data, m1, m0, m2)\<close> moves the median of the three elements to
  \<open>m1\<close>. \<open>swap_if_less i j\<close> is \<^verbatim>\<open>if data.Less(i, j) { data.Swap(i, j) }\<close> and tells
  whether it swapped.
\<close>

definition swap_if_less ::
  "('a \<Rightarrow> 'a \<Rightarrow> 's \<Rightarrow> bool \<times> 's) \<Rightarrow> ('a, 's) lessSwap \<Rightarrow> nat \<Rightarrow> nat \<Rightarrow> bool \<times> ('a, 's) lessSwap" where
  "swap_if_less lessFn data i j =
     (case Less lessFn data i j of (r, data) \<Rightarrow> if r then (True, Swap data i j) else (False, data))"

definition medianOfThree_func ::
  "('a \<Rightarrow> 'a \<Rightarrow> 's \<Rightarrow> bool \<times> 's) \<Rightarrow> ('a, 's) lessSwap \<Rightarrow> nat \<Rightarrow> nat \<Rightarrow> nat \<Rightarrow> ('a, 's) lessSwap" where
  "medianOfThree_func lessFn data m1 m0 m2 =
     (case swap_if_less lessFn data m1 m0 of
        (r, data) \<Rightarrow>
          (case swap_if_less lessFn data m2 m1 of
             (r, data) \<Rightarrow> if r then snd (swap_if_less lessFn data m1 m0) else data))"

text \<open>
  The loops of \<open>doPivot_func\<close>. \<open>scan_less\<close> is
  \<^verbatim>\<open>for ; a < c && data.Less(a, pivot); a++ {}\<close>, \<open>scan_not_less\<close> is
  \<^verbatim>\<open>for ; b < c && !data.Less(pivot, b); b++ {}\<close> and \<open>scan_down\<close> is
  \<^verbatim>\<open>for ; b < c && data.Less(pivot, c-1); c-- {}\<close>. Each returns the new index and the
  data.
\<close>

function scan_less ::
  "('a \<Rightarrow> 'a \<Rightarrow> 's \<Rightarrow> bool \<times> 's) \<Rightarrow> ('a, 's) lessSwap \<Rightarrow> nat \<Rightarrow> nat \<Rightarrow> nat \<Rightarrow> nat \<times> ('a, 's) lessSwap" where
  "scan_less lessFn data a c pivot =
     (if a < c then
        (case Less lessFn data a pivot of
           (r, data) \<Rightarrow> if r then scan_less lessFn data (a + 1) c pivot else (a, data))
      else (a, data))"
  by pat_completeness auto
termination
  by (relation "measure (\<lambda>(lessFn, data, a, c, pivot). c - a)") auto

declare scan_less.simps [simp del]

function scan_not_less ::
  "('a \<Rightarrow> 'a \<Rightarrow> 's \<Rightarrow> bool \<times> 's) \<Rightarrow> ('a, 's) lessSwap \<Rightarrow> nat \<Rightarrow> nat \<Rightarrow> nat \<Rightarrow> nat \<times> ('a, 's) lessSwap" where
  "scan_not_less lessFn data b c pivot =
     (if b < c then
        (case Less lessFn data pivot b of
           (r, data) \<Rightarrow> if \<not> r then scan_not_less lessFn data (b + 1) c pivot else (b, data))
      else (b, data))"
  by pat_completeness auto
termination
  by (relation "measure (\<lambda>(lessFn, data, b, c, pivot). c - b)") auto

declare scan_not_less.simps [simp del]

function scan_down ::
  "('a \<Rightarrow> 'a \<Rightarrow> 's \<Rightarrow> bool \<times> 's) \<Rightarrow> ('a, 's) lessSwap \<Rightarrow> nat \<Rightarrow> nat \<Rightarrow> nat \<Rightarrow> nat \<times> ('a, 's) lessSwap" where
  "scan_down lessFn data b c pivot =
     (if b < c then
        (case Less lessFn data pivot (c - 1) of
           (r, data) \<Rightarrow> if r then scan_down lessFn data b (c - 1) pivot else (c, data))
      else (c, data))"
  by pat_completeness auto
termination
  by (relation "measure (\<lambda>(lessFn, data, b, c, pivot). c - b)") auto

declare scan_down.simps [simp del]

lemma scan_not_less_ge: "b \<le> fst (scan_not_less lessFn data b c pivot)"
proof (induction lessFn data b c pivot rule: scan_not_less.induct)
  case (1 lessFn data b c pivot)
  show ?case
    using "1.IH" [OF _ prod.collapse]
    by (subst scan_not_less.simps) (auto simp: case_prod_beta dest: Suc_leD)
qed

lemma scan_down_le: "fst (scan_down lessFn data b c pivot) \<le> c"
proof (induction lessFn data b c pivot rule: scan_down.induct)
  case (1 lessFn data b c pivot)
  show ?case
    using "1.IH" [OF _ prod.collapse]
    by (subst scan_down.simps) (auto simp: case_prod_beta intro: le_trans)
qed

lemma scan_not_less_result: "(b', data') = scan_not_less lessFn data b c pivot \<Longrightarrow> b \<le> b'"
  by (metis scan_not_less_ge fst_conv)

lemma scan_down_result: "(c', data') = scan_down lessFn data b c pivot \<Longrightarrow> c' \<le> c"
  by (metis scan_down_le fst_conv)

text \<open>
  The main loop of \<open>doPivot_func\<close>:
  \<^verbatim>\<open>for { [scan b up]; [scan c down]; if b >= c { break }; data.Swap(b, c-1); b++; c-- }\<close>
\<close>

function partition_loop ::
  "('a \<Rightarrow> 'a \<Rightarrow> 's \<Rightarrow> bool \<times> 's) \<Rightarrow> ('a, 's) lessSwap \<Rightarrow> nat \<Rightarrow> nat \<Rightarrow> nat \<Rightarrow>
     nat \<times> nat \<times> ('a, 's) lessSwap" where
  "partition_loop lessFn data b c pivot =
     (case scan_not_less lessFn data b c pivot of
        (b, data) \<Rightarrow>
          (case scan_down lessFn data b c pivot of
             (c, data) \<Rightarrow>
               if b \<ge> c then (b, c, data)
               else partition_loop lessFn (Swap data b (c - 1)) (b + 1) (c - 1) pivot))"
  by pat_completeness auto
termination
  apply (relation "measure (\<lambda>(lessFn, data, b, c, pivot). c - b)")
   apply simp
  apply (auto dest!: scan_not_less_result scan_down_result)
  done

declare partition_loop.simps [simp del]

text \<open>
  The loop that guards against many duplicates:
  \<^verbatim>\<open>for { for ; a < b && !data.Less(b-1, pivot); b-- {}; for ; a < b && data.Less(a, pivot); a++ {};\<close>
  \<^verbatim>\<open>      if a >= b { break }; data.Swap(a, b-1); a++; b-- }\<close>
\<close>

function scan_down_not_less ::
  "('a \<Rightarrow> 'a \<Rightarrow> 's \<Rightarrow> bool \<times> 's) \<Rightarrow> ('a, 's) lessSwap \<Rightarrow> nat \<Rightarrow> nat \<Rightarrow> nat \<Rightarrow> nat \<times> ('a, 's) lessSwap" where
  "scan_down_not_less lessFn data a b pivot =
     (if a < b then
        (case Less lessFn data (b - 1) pivot of
           (r, data) \<Rightarrow>
             if \<not> r then scan_down_not_less lessFn data a (b - 1) pivot else (b, data))
      else (b, data))"
  by pat_completeness auto
termination
  by (relation "measure (\<lambda>(lessFn, data, a, b, pivot). b - a)") auto

declare scan_down_not_less.simps [simp del]

lemma scan_down_not_less_le: "fst (scan_down_not_less lessFn data a b pivot) \<le> b"
proof (induction lessFn data a b pivot rule: scan_down_not_less.induct)
  case (1 lessFn data a b pivot)
  show ?case
    using "1.IH" [OF _ prod.collapse]
    by (subst scan_down_not_less.simps) (auto simp: case_prod_beta intro: le_trans)
qed

lemma scan_less_ge: "a \<le> fst (scan_less lessFn data a c pivot)"
proof (induction lessFn data a c pivot rule: scan_less.induct)
  case (1 lessFn data a c pivot)
  show ?case
    using "1.IH" [OF _ prod.collapse]
    by (subst scan_less.simps) (auto simp: case_prod_beta dest: Suc_leD)
qed

lemma scan_down_not_less_result:
  "(b', data') = scan_down_not_less lessFn data a b pivot \<Longrightarrow> b' \<le> b"
  by (metis scan_down_not_less_le fst_conv)

lemma scan_less_result: "(a', data') = scan_less lessFn data a c pivot \<Longrightarrow> a \<le> a'"
  by (metis scan_less_ge fst_conv)

function protect_loop ::
  "('a \<Rightarrow> 'a \<Rightarrow> 's \<Rightarrow> bool \<times> 's) \<Rightarrow> ('a, 's) lessSwap \<Rightarrow> nat \<Rightarrow> nat \<Rightarrow> nat \<Rightarrow>
     nat \<times> nat \<times> ('a, 's) lessSwap" where
  "protect_loop lessFn data a b pivot =
     (case scan_down_not_less lessFn data a b pivot of
        (b, data) \<Rightarrow>
          (case scan_less lessFn data a b pivot of
             (a, data) \<Rightarrow>
               if a \<ge> b then (a, b, data)
               else protect_loop lessFn (Swap data a (b - 1)) (a + 1) (b - 1) pivot))"
  by pat_completeness auto
termination
  apply (relation "measure (\<lambda>(lessFn, data, a, b, pivot). b - a)")
   apply simp
  apply (auto dest!: scan_down_not_less_result scan_less_result)
  done

declare protect_loop.simps [simp del]

text \<open>
  The test of three points for equality with the pivot, made when \<open>protect\<close> is not set
  and \<open>hi-c < (hi-lo)/4\<close>. It returns \<open>b\<close>, \<open>c\<close>, the number \<open>dups\<close> and the data.
\<close>

definition doPivot_dups ::
  "('a \<Rightarrow> 'a \<Rightarrow> 's \<Rightarrow> bool \<times> 's) \<Rightarrow> ('a, 's) lessSwap \<Rightarrow> nat \<Rightarrow> nat \<Rightarrow> nat \<Rightarrow> nat \<Rightarrow> nat \<Rightarrow>
     nat \<times> nat \<times> nat \<times> ('a, 's) lessSwap" where
  "doPivot_dups lessFn data pivot hi m b c =
     (case (case Less lessFn data pivot (hi - 1) of
              (r, data) \<Rightarrow> if \<not> r then (c + 1, 1, Swap data c (hi - 1)) else (c, 0, data)) of
        (c, dups, data) \<Rightarrow>
          (case (case Less lessFn data (b - 1) pivot of
                   (r, data) \<Rightarrow> if \<not> r then (b - 1, dups + 1, data) else (b, dups, data)) of
             (b, dups, data) \<Rightarrow>
               (case Less lessFn data m pivot of
                  (r, data) \<Rightarrow>
                    if \<not> r then (b - 1, c, dups + 1, Swap data m (b - 1))
                    else (b, c, dups, data))))"

definition doPivot_func ::
  "('a \<Rightarrow> 'a \<Rightarrow> 's \<Rightarrow> bool \<times> 's) \<Rightarrow> ('a, 's) lessSwap \<Rightarrow> nat \<Rightarrow> nat \<Rightarrow>
     nat \<times> nat \<times> ('a, 's) lessSwap" where
  "doPivot_func lessFn data lo hi =
     (let m = (lo + hi) div 2;
          data = (if hi - lo > 40 then
                    (let s = (hi - lo) div 8;
                         data = medianOfThree_func lessFn data lo (lo + s) (lo + 2 * s);
                         data = medianOfThree_func lessFn data m (m - s) (m + s)
                     in medianOfThree_func lessFn data (hi - 1) (hi - 1 - s) (hi - 1 - 2 * s))
                  else data);
          data = medianOfThree_func lessFn data lo m (hi - 1);
          pivot = lo
      in case scan_less lessFn data (lo + 1) (hi - 1) pivot of
           (a, data) \<Rightarrow>
             (case partition_loop lessFn data a (hi - 1) pivot of
                (b, c, data) \<Rightarrow>
                  (let protect = hi - c < 5 in
                   case (if \<not> protect \<and> hi - c < (hi - lo) div 4
                         then (case doPivot_dups lessFn data pivot hi m b c of
                                 (b, c, dups, data) \<Rightarrow> (b, c, dups > 1, data))
                         else (b, c, protect, data)) of
                     (b, c, protect, data) \<Rightarrow>
                       (case (if protect then protect_loop lessFn data a b pivot
                              else (a, b, data)) of
                          (a, b, data) \<Rightarrow> (b - 1, c, Swap data pivot (b - 1))))))"

text \<open>
  \<open>quickSort_func(data, a, b, maxDepth)\<close>. The loop \<^verbatim>\<open>for b-a > 12\<close> sorts the smaller side
  by a call and goes on with the other side, with the depth left; here both are calls.
  The last part is the pass with the gap 6 (\<open>shell_pass\<close>, which starts at \<open>a + 6\<close>) and
  the insertion sort.
\<close>

function shell_pass ::
  "('a \<Rightarrow> 'a \<Rightarrow> 's \<Rightarrow> bool \<times> 's) \<Rightarrow> ('a, 's) lessSwap \<Rightarrow> nat \<Rightarrow> nat \<Rightarrow> ('a, 's) lessSwap" where
  "shell_pass lessFn data b i =
     (if i < b then shell_pass lessFn (snd (swap_if_less lessFn data i (i - 6))) b (i + 1)
      else data)"
  by pat_completeness auto
termination
  by (relation "measure (\<lambda>(lessFn, data, b, i). b - i)") auto

declare shell_pass.simps [simp del]

fun quickSort_func ::
  "('a \<Rightarrow> 'a \<Rightarrow> 's \<Rightarrow> bool \<times> 's) \<Rightarrow> ('a, 's) lessSwap \<Rightarrow> nat \<Rightarrow> nat \<Rightarrow> nat \<Rightarrow> ('a, 's) lessSwap" where
  "quickSort_func lessFn data a b 0 =
     (if b - a > 12 then heapSort_func lessFn data a b
      else if b - a > 1 then insertionSort_func lessFn (shell_pass lessFn data b (a + 6)) a b
      else data)"
| "quickSort_func lessFn data a b (Suc maxDepth) =
     (if b - a > 12 then
        (case doPivot_func lessFn data a b of
           (mlo, mhi, data) \<Rightarrow>
             if mlo - a < b - mhi
             then quickSort_func lessFn (quickSort_func lessFn data a mlo maxDepth) mhi b maxDepth
             else quickSort_func lessFn (quickSort_func lessFn data mhi b maxDepth) a mlo maxDepth)
      else if b - a > 1 then insertionSort_func lessFn (shell_pass lessFn data b (a + 6)) a b
      else data)"

declare quickSort_func.simps [simp del]

text \<open>
  \<^verbatim>\<open>for i := n; i > 0; i >>= 1 { depth++ }; return depth * 2\<close>
\<close>

function maxDepth_loop :: "nat \<Rightarrow> nat \<Rightarrow> nat" where
  "maxDepth_loop i depth = (if i > 0 then maxDepth_loop (i div 2) (depth + 1) else depth)"
  by pat_completeness auto
termination
  by (relation "measure (\<lambda>(i, depth). i)") auto

declare maxDepth_loop.simps [simp del]

definition maxDepth :: "nat \<Rightarrow> nat" where
  "maxDepth n = maxDepth_loop n 0 * 2"

definition sort_Slice ::
  "('a \<Rightarrow> 'a \<Rightarrow> 's \<Rightarrow> bool \<times> 's) \<Rightarrow> ('a, 's) lessSwap \<Rightarrow> ('a, 's) lessSwap" where
  "sort_Slice lessFn data =
     quickSort_func lessFn data 0 (length (fst data)) (maxDepth (length (fst data)))"

subsection \<open>The comparisons of the list and info commands\<close>

text \<open>
  Modelled from the spec: the types \<open>tunnelstore.Tunnel\<close> and \<open>tunnelstore.ActiveClient\<close>
  (the connector) are not among the sources. The fields are those of the spec's data
  model, which are the fields the source reads. A tunnel that was not deleted has the
  zero time in \<open>DeletedAt\<close>.
\<close>

record ActiveClient =
  ID :: UUID
  RunAt :: Time
  Version :: string
  Arch :: string
  Connections :: "Connection list"

record Tunnel =
  ID :: UUID
  Name :: string
  CreatedAt :: Time
  DeletedAt :: Time
  Connections :: "Connection list"

definition allSortByOptions :: string where
  "allSortByOptions = ''name, id, createdAt, deletedAt, numConnections''"

definition connsSortByOptions :: string where
  "connsSortByOptions = ''id, startedAt, numConnections, version''"

text \<open>
  The closure given to \<open>sort.Slice\<close> in \<open>listCommand\<close>, on the elements \<open>tunnels[i]\<close> and
  \<open>tunnels[j]\<close>. The variable \<open>invalidSortField\<close> that it captures is its state. Strings
  compare byte by byte, as the order on \<open>string\<close> does.
\<close>

definition listCommand_less :: "Context \<Rightarrow> string \<Rightarrow> Tunnel \<Rightarrow> Tunnel \<Rightarrow> bool \<Rightarrow> bool \<times> bool" where
  "listCommand_less c sortBy ti tj invalidSortField =
     (case (if sortBy = ''name'' then (Name ti < Name tj, invalidSortField)
            else if sortBy = ''id''
              then (UUID_String (Tunnel.ID ti) < UUID_String (Tunnel.ID tj), invalidSortField)
            else if sortBy = ''createdAt''
              then (Time_Unix (CreatedAt ti) < Time_Unix (CreatedAt tj), invalidSortField)
            else if sortBy = ''deletedAt''
              then (Time_Unix (DeletedAt ti) < Time_Unix (DeletedAt tj), invalidSortField)
            else if sortBy = ''numConnections''
              then (length (Tunnel.Connections ti) < length (Tunnel.Connections tj),
                    invalidSortField)
            else (Name ti < Name tj, True)) of
        (cmp, invalidSortField) \<Rightarrow>
          if ctx_Bool c ''invert-sort'' then (\<not> cmp, invalidSortField)
          else (cmp, invalidSortField))"

text \<open>
  The sorting part of \<open>listCommand\<close>: the sorted tunnels and the messages written to the
  error log.
\<close>

definition listCommand_sort :: "Context \<Rightarrow> Tunnel list \<Rightarrow> Tunnel list \<times> string list" where
  "listCommand_sort c tunnels =
     (let sortBy = ctx_String c ''sort-by'';
          invalidSortField = False
      in case sort_Slice (listCommand_less c sortBy) (tunnels, invalidSortField) of
           (tunnels, invalidSortField) \<Rightarrow>
             (tunnels,
              if invalidSortField
              then [sortBy @ '' is not a valid sort field. Valid sort fields are '' @
                      allSortByOptions @ ''. Defaulting to 'name'.'']
              else []))"

text \<open>The same for \<open>tunnelInfo\<close> and the connectors of a tunnel.\<close>

definition tunnelInfo_less ::
  "Context \<Rightarrow> string \<Rightarrow> ActiveClient \<Rightarrow> ActiveClient \<Rightarrow> bool \<Rightarrow> bool \<times> bool" where
  "tunnelInfo_less c sortBy ci cj invalidSortField =
     (case (if sortBy = ''id''
              then (UUID_String (ActiveClient.ID ci) < UUID_String (ActiveClient.ID cj),
                    invalidSortField)
            else if sortBy = ''createdAt''
              then (Time_Unix (RunAt ci) < Time_Unix (RunAt cj), invalidSortField)
            else if sortBy = ''numConnections''
              then (length (ActiveClient.Connections ci) < length (ActiveClient.Connections cj),
                    invalidSortField)
            else if sortBy = ''version'' then (Version ci < Version cj, invalidSortField)
            else (Time_Unix (RunAt ci) < Time_Unix (RunAt cj), True)) of
        (cmp, invalidSortField) \<Rightarrow>
          if ctx_Bool c ''invert-sort'' then (\<not> cmp, invalidSortField)
          else (cmp, invalidSortField))"

definition tunnelInfo_sort :: "Context \<Rightarrow> ActiveClient list \<Rightarrow> ActiveClient list \<times> string list" where
  "tunnelInfo_sort c clients =
     (let sortBy = ctx_String c ''sort-by'';
          invalidSortField = False
      in case sort_Slice (tunnelInfo_less c sortBy) (clients, invalidSortField) of
           (clients, invalidSortField) \<Rightarrow>
             (clients,
              if invalidSortField
              then [sortBy @ '' is not a valid sort field. Valid sort fields are '' @
                      connsSortByOptions @ ''. Defaulting to 'name'.'']
              else []))"

text \<open>
  The contexts of \<open>cloudflared tunnel list --sort-by KEY\<close> and of
  \<open>cloudflared tunnel info --sort-by KEY\<close>, with \<open>--invert-sort\<close> when \<open>invert\<close> is set, and
  the sort of the specification, \<open>sort(records, key, invert)\<close>, as the list command does
  it.
\<close>

definition list_ctx :: "string \<Rightarrow> bool \<Rightarrow> Context" where
  "list_ctx sortBy invert =
     (let c = new_Context listCommand_Flags []
      in c\<lparr>string_flags := (string_flags c)(''sort-by'' \<mapsto> sortBy),
           bool_flags := (bool_flags c)(''invert-sort'' \<mapsto> invert)\<rparr>)"

definition info_ctx :: "string \<Rightarrow> bool \<Rightarrow> Context" where
  "info_ctx sortBy invert =
     (let c = new_Context tunnelInfo_Flags []
      in c\<lparr>string_flags := (string_flags c)(''sort-by'' \<mapsto> sortBy),
           bool_flags := (bool_flags c)(''invert-sort'' \<mapsto> invert)\<rparr>)"

definition sort_tunnels :: "string \<Rightarrow> bool \<Rightarrow> Tunnel list \<Rightarrow> Tunnel list" where
  "sort_tunnels sortBy invert tunnels = fst (listCommand_sort (list_ctx sortBy invert) tunnels)"

definition tunnel_sort_keys :: "string list" where
  "tunnel_sort_keys = [''name'', ''id'', ''createdAt'', ''deletedAt'', ''numConnections'']"

definition client_sort_keys :: "string list" where
  "client_sort_keys = [''id'', ''createdAt'', ''numConnections'', ''version'']"

text \<open>Tunnels and a connector for the examples.\<close>

definition tunnel :: "nat \<Rightarrow> string \<Rightarrow> Tunnel" where
  "tunnel n name =
     \<lparr>Tunnel.ID = replicate 15 0 @ [of_nat n], Name = name,
      CreatedAt = \<lparr>sec = 1600000000 + int n, nsec = 0\<rparr>,
      DeletedAt = \<lparr>sec = - 62135596800, nsec = 0\<rparr>, Tunnel.Connections = []\<rparr>"

definition seven_tunnels :: "Tunnel list" where
  "seven_tunnels =
     [tunnel 1 ''a'', tunnel 2 ''a'', tunnel 3 ''b'', tunnel 4 ''c'', tunnel 5 ''d'',
      tunnel 6 ''e'', tunnel 7 ''f'']"

definition client :: "nat \<Rightarrow> string \<Rightarrow> ActiveClient" where
  "client n version =
     \<lparr>ActiveClient.ID = replicate 15 0 @ [of_nat n],
      RunAt = \<lparr>sec = 1600000000 + int n, nsec = 0\<rparr>,
      Version = version, Arch = ''linux_amd64'', ActiveClient.Connections = []\<rparr>"

text \<open>
  Two tunnels are tied under a sort key when the comparison of \<open>listCommand\<close>, not
  inverted, puts neither of them before the other; \<open>no_ties\<close> says that no two tunnels at
  different positions of a list are tied.
\<close>

definition tied :: "string \<Rightarrow> Tunnel \<Rightarrow> Tunnel \<Rightarrow> bool" where
  "tied sortBy ti tj \<longleftrightarrow>
     \<not> fst (listCommand_less (list_ctx sortBy False) sortBy ti tj False) \<and>
     \<not> fst (listCommand_less (list_ctx sortBy False) sortBy tj ti False)"

fun no_ties :: "string \<Rightarrow> Tunnel list \<Rightarrow> bool" where
  "no_ties sortBy [] = True"
| "no_ties sortBy (t # ts) = (list_all (\<lambda>u. \<not> tied sortBy t u) ts \<and> no_ties sortBy ts)"

definition three_tunnels :: "Tunnel list" where
  "three_tunnels = [tunnel 1 ''b'', tunnel 2 ''c'', tunnel 3 ''a'']"

subsection \<open>What sorting means\<close>

text \<open>
  The notions used to state that \<open>sort.Slice\<close> sorts. The closure \<open>lessFn\<close> is \<open>keyed\<close> by a
  function \<open>key\<close> on a set of elements when its result on two different elements of the
  set is the comparison of their keys, whatever the captured state, and different
  elements have different keys. Nothing is asked of \<open>lessFn\<close> on an element and itself.
  \<open>permuted_in a b xs ys\<close> says that \<open>ys\<close> has the elements of \<open>xs\<close> and agrees with \<open>xs\<close>
  outside the positions from \<open>a\<close> up to \<open>b\<close>, and \<open>sorted_in key xs a b\<close> that the keys
  increase along these positions.
\<close>

definition keyed :: "('a \<Rightarrow> 'a \<Rightarrow> 's \<Rightarrow> bool \<times> 's) \<Rightarrow> ('a \<Rightarrow> nat) \<Rightarrow> 'a set \<Rightarrow> bool" where
  "keyed lessFn key S \<longleftrightarrow>
     inj_on key S \<and> (\<forall>x\<in>S. \<forall>y\<in>S. \<forall>s. x \<noteq> y \<longrightarrow> fst (lessFn x y s) = (key x < key y))"

definition permuted_in :: "nat \<Rightarrow> nat \<Rightarrow> 'a list \<Rightarrow> 'a list \<Rightarrow> bool" where
  "permuted_in a b xs ys \<longleftrightarrow>
     length ys = length xs \<and> mset ys = mset xs \<and>
     (\<forall>i<length xs. i < a \<or> b \<le> i \<longrightarrow> ys ! i = xs ! i)"

definition sorted_in :: "('a \<Rightarrow> nat) \<Rightarrow> 'a list \<Rightarrow> nat \<Rightarrow> nat \<Rightarrow> bool" where
  "sorted_in key xs a b \<longleftrightarrow> (\<forall>i j. a \<le> i \<and> i < j \<and> j < b \<longrightarrow> key (xs ! i) < key (xs ! j))"

text \<open>
  The rank of an element among the elements of a list, for a key of any linearly ordered
  type: the number of elements with a smaller key.
\<close>

definition rank_in :: "('a \<Rightarrow> 'k::linorder) \<Rightarrow> 'a list \<Rightarrow> 'a \<Rightarrow> nat" where
  "rank_in f xs x = length (filter (\<lambda>y. f y < f x) (remdups xs))"

definition sortable :: "('a \<Rightarrow> 'a \<Rightarrow> 's \<Rightarrow> bool \<times> 's) \<Rightarrow> ('a \<Rightarrow> nat) \<Rightarrow> 'a list \<Rightarrow> bool" where
  "sortable lessFn key xs \<longleftrightarrow> keyed lessFn key (set xs) \<and> distinct xs"

text \<open>
  For the heapsort: the elements at the positions \<open>first + lo\<close> up to \<open>first + hi\<close> form a
  heap when every node from \<open>lo\<close> on has a greater key than its children \<open>2p + 1\<close> and
  \<open>2p + 2\<close>. \<open>heap_except\<close> is the state in which \<open>siftDown_func\<close> works: the heap
  condition holds at every node but \<open>root\<close>, and the parent of \<open>root\<close> is above the children
  of \<open>root\<close>.
\<close>

definition is_heap :: "('a \<Rightarrow> nat) \<Rightarrow> 'a list \<Rightarrow> nat \<Rightarrow> nat \<Rightarrow> nat \<Rightarrow> bool" where
  "is_heap key xs first lo hi \<longleftrightarrow>
     (\<forall>p c. lo \<le> p \<and> c < hi \<and> (c = 2 * p + 1 \<or> c = 2 * p + 2) \<longrightarrow>
        key (xs ! (first + c)) < key (xs ! (first + p)))"

definition heap_except :: "('a \<Rightarrow> nat) \<Rightarrow> 'a list \<Rightarrow> nat \<Rightarrow> nat \<Rightarrow> nat \<Rightarrow> nat \<Rightarrow> bool" where
  "heap_except key xs first lo hi root \<longleftrightarrow>
     (\<forall>p c. lo \<le> p \<and> p \<noteq> root \<and> c < hi \<and> (c = 2 * p + 1 \<or> c = 2 * p + 2) \<longrightarrow>
        key (xs ! (first + c)) < key (xs ! (first + p))) \<and>
     (\<forall>p c. lo \<le> p \<and> (root = 2 * p + 1 \<or> root = 2 * p + 2) \<and> c < hi \<and>
        (c = 2 * root + 1 \<or> c = 2 * root + 2) \<longrightarrow>
        key (xs ! (first + c)) < key (xs ! (first + p)))"

section \<open>Verification\<close>

subsection \<open>Validator: names\<close>

text \<open>
  A pattern of the shape \<open>^[c1][c2]*$\<close> matches exactly the non-empty strings whose
  first character is in \<open>c1\<close> and whose other characters are all in \<open>c2\<close>.
\<close>

lemma seq_BeginText:
  "rx_seq_ends (BeginText # rs) s i = (if i = 0 then rx_seq_ends rs s 0 else [])"
  by simp

lemma seq_CharClass:
  "rx_seq_ends (CharClass cls # rs) s i =
     (if i < length s \<and> in_class cls (s ! i) then rx_seq_ends rs s (Suc i) else [])"
  by auto

lemma star_end:
  "rx_seq_ends [StarClass cls, EndText] s i \<noteq> [] \<longleftrightarrow>
     i \<le> length s \<and> list_all (in_class cls) (drop i s)"
proof -
  let ?run = "length (takeWhile (in_class cls) (drop i s))"
  have "rx_seq_ends [StarClass cls, EndText] s i \<noteq> [] \<longleftrightarrow> (\<exists>k\<le>?run. i + k = length s)"
    by (auto simp: less_Suc_eq_le) (metis less_imp_le_nat)
  also have "\<dots> \<longleftrightarrow> i \<le> length s \<and> length s - i \<le> ?run"
    by (metis le_add1 le_add_diff_inverse add_diff_cancel_left')
  also have "\<dots> \<longleftrightarrow> i \<le> length s \<and> ?run = length (drop i s)"
    using length_takeWhile_le [of "in_class cls" "drop i s"] by auto
  also have "\<dots> \<longleftrightarrow> i \<le> length s \<and> list_all (in_class cls) (drop i s)"
    by (metis takeWhile_eq_all_conv list_all_iff length_append takeWhile_dropWhile_id
        add_cancel_right_right length_0_conv dropWhile_eq_Nil_conv)
  finally show ?thesis .
qed

lemma MatchString_anchored:
  "MatchString [BeginText, CharClass c1, StarClass c2, EndText] s \<longleftrightarrow>
     (case s of [] \<Rightarrow> False | c # cs \<Rightarrow> in_class c1 c \<and> list_all (in_class c2) cs)"
proof -
  have "MatchString [BeginText, CharClass c1, StarClass c2, EndText] s \<longleftrightarrow>
      rx_seq_ends [CharClass c1, StarClass c2, EndText] s 0 \<noteq> []"
    unfolding MatchString_def list_ex_iff seq_BeginText by auto
  also have "\<dots> \<longleftrightarrow> 0 < length s \<and> in_class c1 (s ! 0) \<and> list_all (in_class c2) (drop 1 s)"
    unfolding seq_CharClass using star_end [of c2 s "Suc 0"] by (auto simp: Suc_le_eq)
  also have "\<dots> \<longleftrightarrow>
      (case s of [] \<Rightarrow> False | c # cs \<Rightarrow> in_class c1 c \<and> list_all (in_class c2) cs)"
    by (cases s) auto
  finally show ?thesis .
qed

lemma source_first_class:
  "in_class [Lit CHR ''_'', Span CHR ''a'' CHR ''z'', Span CHR ''A'' CHR ''Z'',
     Span CHR ''0'' CHR ''9''] c = name_first False c"
  "in_class [Lit CHR ''*'', Lit CHR ''_'', Span CHR ''a'' CHR ''z'', Span CHR ''A'' CHR ''Z'',
     Span CHR ''0'' CHR ''9''] c = name_first True c"
  by (auto simp: in_class_def name_first_def is_alnum_def)

lemma spec_first_class:
  "in_class [Lit CHR ''_'', Span CHR ''A'' CHR ''Z'', Span CHR ''a'' CHR ''z'',
     Span CHR ''0'' CHR ''9''] c = name_first False c"
  "in_class [Lit CHR ''*'', Lit CHR ''_'', Span CHR ''A'' CHR ''Z'', Span CHR ''a'' CHR ''z'',
     Span CHR ''0'' CHR ''9''] c = name_first True c"
  by (auto simp: in_class_def name_first_def is_alnum_def)

lemma rest_class:
  "in_class [Lit CHR ''-'', Lit CHR ''_'', Lit CHR ''.'', Span CHR ''a'' CHR ''z'',
     Span CHR ''A'' CHR ''Z'', Span CHR ''0'' CHR ''9''] = name_rest"
  "in_class [Lit CHR ''-'', Lit CHR ''_'', Lit CHR ''.'', Span CHR ''A'' CHR ''Z'',
     Span CHR ''a'' CHR ''z'', Span CHR ''0'' CHR ''9''] = name_rest"
  by (auto simp: in_class_def name_rest_def is_alnum_def fun_eq_iff)

lemma validateName_shape: "validateName s w = name_shape w s"
  by (cases w; cases s)
    (simp_all add: validateName_def nameRegex_def hostNameRegex_def MatchString_anchored
      source_first_class rest_class name_shape_def)

lemma spec_regex_shape:
  "MatchString spec_nameRegex s = name_shape False s"
  "MatchString spec_wildcardRegex s = name_shape True s"
  by (cases s; simp add: spec_nameRegex_def spec_wildcardRegex_def MatchString_anchored
      spec_first_class rest_class name_shape_def)+

text \<open>
  Claim C5. \<open>validateName s false\<close> holds exactly when \<open>s\<close> matches
  \<open>^[_A-Za-z0-9][-_.A-Za-z0-9]*$\<close>, and \<open>validateName s true\<close> exactly when \<open>s\<close> matches
  the variant whose first class also has \<open>*\<close>; that is, when \<open>s\<close> is not empty, starts
  with a letter, a digit or an underscore (or \<open>*\<close> when wildcards are allowed) and
  continues with letters, digits, \<open>-\<close>, \<open>_\<close> and \<open>.\<close> only. In particular
  \<open>my_tunnel-1\<close> is accepted and \<open>-leading-dash\<close> is rejected.
\<close>

theorem validateName_matches_pattern:
  "(validateName s False \<longleftrightarrow> MatchString spec_nameRegex s) \<and>
   (validateName s True \<longleftrightarrow> MatchString spec_wildcardRegex s) \<and>
   (validateName s False \<longleftrightarrow> name_shape False s) \<and>
   (validateName s True \<longleftrightarrow> name_shape True s) \<and>
   validateName ''my_tunnel-1'' False \<and>
   \<not> validateName ''-leading-dash'' False"
proof -
  have "validateName ''my_tunnel-1'' False" by code_simp
  moreover have "\<not> validateName ''-leading-dash'' False" by code_simp
  ultimately show ?thesis
    by (simp add: validateName_shape spec_regex_shape)
qed

theorem validateName_matches_pattern_witness:
  "(validateName ''*.example.com'' False \<longleftrightarrow> MatchString spec_nameRegex ''*.example.com'') \<and>
   (validateName ''*.example.com'' True \<longleftrightarrow> MatchString spec_wildcardRegex ''*.example.com'') \<and>
   validateName ''*.example.com'' True \<and> \<not> validateName ''*.example.com'' False"
proof -
  have "validateName ''*.example.com'' True" by code_simp
  moreover have "\<not> validateName ''*.example.com'' False" by code_simp
  ultimately show ?thesis
    using validateName_matches_pattern [of "''*.example.com''"] by simp
qed


subsection \<open>Validator: hostnames\<close>

text \<open>
  Claim C4. \<open>validateHostname s allowWildcard\<close> holds exactly when the transform to ASCII
  succeeds on \<open>s\<close> and \<open>validateName\<close> accepts its output with the same flag. The
  transform is the library's: for \<open>*.example.com\<close>, which it returns unchanged, the
  hostname is accepted with wildcards allowed and rejected without; for
  \<open>xn--something-invalid\<close> followed by a NUL byte, on which it fails (and which
  \<open>validateName\<close> would reject had it come back unchanged), the hostname is rejected.
\<close>

theorem validateHostname_normalises_then_validates:
  "(validateHostname toASCII s allowWildcard \<longleftrightarrow>
      (\<exists>puny. toASCII s = Inr puny \<and> validateName puny allowWildcard)) \<and>
   (toASCII ''*.example.com'' = Inr ''*.example.com'' \<longrightarrow>
      validateHostname toASCII ''*.example.com'' True \<and>
      \<not> validateHostname toASCII ''*.example.com'' False) \<and>
   ((\<exists>e. toASCII (''xn--something-invalid'' @ [CHR 0x00]) = Inl e) \<or>
    toASCII (''xn--something-invalid'' @ [CHR 0x00]) = Inr (''xn--something-invalid'' @ [CHR 0x00]) \<longrightarrow>
      \<not> validateHostname toASCII (''xn--something-invalid'' @ [CHR 0x00]) True)"
proof -
  have a: "validateName ''*.example.com'' True" by code_simp
  have b: "\<not> validateName ''*.example.com'' False" by code_simp
  have c: "\<not> validateName (''xn--something-invalid'' @ [CHR 0x00]) True" by code_simp
  show ?thesis
    using a b c by (auto simp: validateHostname_def split: sum.splits)
qed

theorem validateHostname_normalises_then_validates_witness:
  "ascii_only_profile ''*.example.com'' = Inr ''*.example.com'' \<and>
   validateHostname ascii_only_profile ''*.example.com'' True \<and>
   \<not> validateHostname ascii_only_profile ''*.example.com'' False \<and>
   (\<exists>e. ascii_only_profile (''xn--something-invalid'' @ [CHR 0x00]) = Inl e) \<and>
   \<not> validateHostname ascii_only_profile (''xn--something-invalid'' @ [CHR 0x00]) True"
proof -
  have a: "ascii_only_profile ''*.example.com'' = Inr ''*.example.com''" by code_simp
  have b: "ascii_only_profile (''xn--something-invalid'' @ [CHR 0x00]) =
      Inl (LabelError (''xn--something-invalid'' @ [CHR 0x00]) ''A4'')" by code_simp
  note inst = validateHostname_normalises_then_validates [of ascii_only_profile "[]" True]
  from inst a have "validateHostname ascii_only_profile ''*.example.com'' True \<and>
      \<not> validateHostname ascii_only_profile ''*.example.com'' False"
    by blast
  moreover from inst b
  have "\<not> validateHostname ascii_only_profile (''xn--something-invalid'' @ [CHR 0x00]) True"
    by blast
  ultimately show ?thesis using a b by blast
qed

subsection \<open>Route builder\<close>

lemma fmt_d_small: "fmt_d 2 = ''2''" "fmt_d 3 = ''3''" "fmt_d 4 = ''4''"
  by (simp_all add: fmt_d.simps digit_char_def)

lemma fmt_d_Suc: "fmt_d (Suc (Suc 0)) = ''2''" "fmt_d (Suc (Suc (Suc 0))) = ''3''"
  using fmt_d_small by (simp_all add: numeral_2_eq_2 numeral_3_eq_3)

lemma Args_Get_in_range: "n < length (args c) \<Longrightarrow> Args_Get c n = args c ! n"
  by (simp add: Args_Get_def)

text \<open>
  Claim C7. \<open>dnsRouteFromArg\<close> returns a route exactly when there are three positional
  arguments and the third is not empty and passes \<open>validateHostname\<close> with wildcards
  allowed; the route is then the DNS route of that hostname and the overwrite flag. With
  any other number \<open>N\<close> of arguments it fails with the usage error
  \<open>Expected 3 arguments, got N\<close> (so \<open>Expected 3 arguments, got 2\<close> for two arguments),
  and with a third argument that is not empty and not a valid hostname it fails with an
  error that names the hostname.
\<close>

theorem dnsRouteFromArg_cases:
  "((\<exists>r. dnsRouteFromArg toASCII c overwrite = Inr r) \<longleftrightarrow>
      length (args c) = 3 \<and> args c ! 2 \<noteq> [] \<and> validateHostname toASCII (args c ! 2) True) \<and>
   (length (args c) = 3 \<and> args c ! 2 \<noteq> [] \<and> validateHostname toASCII (args c ! 2) True \<longrightarrow>
      dnsRouteFromArg toASCII c overwrite = Inr (DNSRoute (args c ! 2) overwrite)) \<and>
   (length (args c) \<noteq> 3 \<longrightarrow>
      dnsRouteFromArg toASCII c overwrite =
        Inl (UsageError (''Expected 3 arguments, got '' @ fmt_d (length (args c))))) \<and>
   (length (args c) = 2 \<longrightarrow>
      dnsRouteFromArg toASCII c overwrite = Inl (UsageError ''Expected 3 arguments, got 2'')) \<and>
   (length (args c) = 3 \<and> args c ! 2 \<noteq> [] \<and> \<not> validateHostname toASCII (args c ! 2) True \<longrightarrow>
      dnsRouteFromArg toASCII c overwrite =
        Inl (Errorf (args c ! 2 @ '' is not a valid hostname'')))"
  by (auto simp: dnsRouteFromArg_def NArg_def Args_Get_in_range NewDNSRoute_def fmt_d_small
      Let_def)

lemma args_ctx_of_args: "args (ctx_of_args as) = as"
  by (simp add: ctx_of_args_def)

lemma validateHostname_ascii_examples:
  "validateHostname ascii_only_profile ''app.example.com'' True"
  "\<not> validateHostname ascii_only_profile ''bad host'' True"
  "validateHostname ascii_only_profile ''lb.example.com'' True"
  by code_simp+

theorem dnsRouteFromArg_cases_witness:
  "dnsRouteFromArg ascii_only_profile (ctx_of_args [''dns'', ''tun'', ''app.example.com'']) True =
     Inr (DNSRoute ''app.example.com'' True) \<and>
   dnsRouteFromArg ascii_only_profile (ctx_of_args [''dns'', ''tun'']) True =
     Inl (UsageError ''Expected 3 arguments, got 2'') \<and>
   dnsRouteFromArg ascii_only_profile (ctx_of_args [''dns'', ''tun'', ''bad host'']) True =
     Inl (Errorf ''bad host is not a valid hostname'')"
  using dnsRouteFromArg_cases [of ascii_only_profile "ctx_of_args [''dns'', ''tun'', ''app.example.com'']" True]
    dnsRouteFromArg_cases [of ascii_only_profile "ctx_of_args [''dns'', ''tun'']" True]
    dnsRouteFromArg_cases [of ascii_only_profile "ctx_of_args [''dns'', ''tun'', ''bad host'']" True]
    validateHostname_ascii_examples
  by (simp add: args_ctx_of_args fmt_d_Suc)

text \<open>
  Claim C8. \<open>lbRouteFromArg\<close> returns a route exactly when there are four positional
  arguments, the third is not empty and passes \<open>validateHostname\<close> with wildcards
  allowed, and the fourth is not empty and passes \<open>validateName\<close> without wildcards; the
  route is then the load-balancer route of the two. Otherwise it fails with an error that
  tells the wrong number of arguments or the argument at fault.
\<close>

theorem lbRouteFromArg_cases:
  "((\<exists>r. lbRouteFromArg toASCII c = Inr r) \<longleftrightarrow>
      length (args c) = 4 \<and>
      args c ! 2 \<noteq> [] \<and> validateHostname toASCII (args c ! 2) True \<and>
      args c ! 3 \<noteq> [] \<and> validateName (args c ! 3) False) \<and>
   (length (args c) = 4 \<and>
      args c ! 2 \<noteq> [] \<and> validateHostname toASCII (args c ! 2) True \<and>
      args c ! 3 \<noteq> [] \<and> validateName (args c ! 3) False \<longrightarrow>
      lbRouteFromArg toASCII c = Inr (LBRoute (args c ! 2) (args c ! 3))) \<and>
   (length (args c) \<noteq> 4 \<longrightarrow>
      lbRouteFromArg toASCII c =
        Inl (UsageError (''Expected 4 arguments, got '' @ fmt_d (length (args c))))) \<and>
   (length (args c) = 4 \<and> args c ! 2 = [] \<longrightarrow>
      lbRouteFromArg toASCII c =
        Inl (UsageError ''The third argument should be the load balancer name'')) \<and>
   (length (args c) = 4 \<and> args c ! 2 \<noteq> [] \<and> \<not> validateHostname toASCII (args c ! 2) True \<longrightarrow>
      lbRouteFromArg toASCII c =
        Inl (Errorf (args c ! 2 @ '' is not a valid load balancer name''))) \<and>
   (length (args c) = 4 \<and> args c ! 2 \<noteq> [] \<and> validateHostname toASCII (args c ! 2) True \<and>
      args c ! 3 = [] \<longrightarrow>
      lbRouteFromArg toASCII c =
        Inl (UsageError ''The fourth argument should be the pool name'')) \<and>
   (length (args c) = 4 \<and> args c ! 2 \<noteq> [] \<and> validateHostname toASCII (args c ! 2) True \<and>
      args c ! 3 \<noteq> [] \<and> \<not> validateName (args c ! 3) False \<longrightarrow>
      lbRouteFromArg toASCII c = Inl (Errorf (args c ! 3 @ '' is not a valid pool name'')))"
  by (auto simp: lbRouteFromArg_def NArg_def Args_Get_in_range NewLBRoute_def fmt_d_small
      Let_def)

lemma validateName_pool_examples:
  "validateName ''pool-1'' False" "\<not> validateName ''*pool'' False"
  by code_simp+

theorem lbRouteFromArg_cases_witness:
  "lbRouteFromArg ascii_only_profile (ctx_of_args [''lb'', ''tun'', ''lb.example.com'', ''pool-1'']) =
     Inr (LBRoute ''lb.example.com'' ''pool-1'') \<and>
   lbRouteFromArg ascii_only_profile (ctx_of_args [''lb'', ''tun'', ''lb.example.com'']) =
     Inl (UsageError ''Expected 4 arguments, got 3'') \<and>
   lbRouteFromArg ascii_only_profile (ctx_of_args [''lb'', ''tun'', [], ''pool-1'']) =
     Inl (UsageError ''The third argument should be the load balancer name'') \<and>
   lbRouteFromArg ascii_only_profile (ctx_of_args [''lb'', ''tun'', ''bad host'', ''pool-1'']) =
     Inl (Errorf ''bad host is not a valid load balancer name'') \<and>
   lbRouteFromArg ascii_only_profile (ctx_of_args [''lb'', ''tun'', ''lb.example.com'', []]) =
     Inl (UsageError ''The fourth argument should be the pool name'') \<and>
   lbRouteFromArg ascii_only_profile (ctx_of_args [''lb'', ''tun'', ''lb.example.com'', ''*pool'']) =
     Inl (Errorf ''*pool is not a valid pool name'')"
  using lbRouteFromArg_cases [of ascii_only_profile "ctx_of_args [''lb'', ''tun'', ''lb.example.com'', ''pool-1'']"]
    lbRouteFromArg_cases [of ascii_only_profile "ctx_of_args [''lb'', ''tun'', ''lb.example.com'']"]
    lbRouteFromArg_cases [of ascii_only_profile "ctx_of_args [''lb'', ''tun'', [], ''pool-1'']"]
    lbRouteFromArg_cases [of ascii_only_profile "ctx_of_args [''lb'', ''tun'', ''bad host'', ''pool-1'']"]
    lbRouteFromArg_cases [of ascii_only_profile "ctx_of_args [''lb'', ''tun'', ''lb.example.com'', []]"]
    lbRouteFromArg_cases [of ascii_only_profile "ctx_of_args [''lb'', ''tun'', ''lb.example.com'', ''*pool'']"]
    validateHostname_ascii_examples validateName_pool_examples
  by (simp add: args_ctx_of_args fmt_d_Suc)


subsection \<open>Renderer: connections per location\<close>

lemma map_incr_keys: "fst ` set (map_incr m k) = insert k (fst ` set m)"
  by (induction m k rule: map_incr.induct) auto

lemma map_incr_distinct: "distinct (map fst m) \<Longrightarrow> distinct (map fst (map_incr m k))"
  by (induction m k rule: map_incr.induct) (auto simp: map_incr_keys)

lemma map_get_incr: "map_get (map_incr m k) k' = map_get m k' + (if k' = k then 1 else 0)"
  by (induction m k rule: map_incr.induct) auto

lemma count_per_colo_keys:
  "fst ` set (count_per_colo cs sh m) =
     fst ` set m \<union> ColoName ` set (filter (counted sh) cs)"
proof (induction cs arbitrary: m)
  case Nil
  then show ?case by simp
next
  case (Cons c cs)
  show ?case
  proof (cases "counted sh c")
    case True
    then have "count_per_colo (c # cs) sh m = count_per_colo cs sh (map_incr m (ColoName c))"
      by (simp add: counted_def)
    then show ?thesis using True by (simp add: Cons.IH map_incr_keys)
  next
    case False
    then have "count_per_colo (c # cs) sh m = count_per_colo cs sh m"
      by (simp add: counted_def)
    then show ?thesis using False by (simp add: Cons.IH)
  qed
qed

lemma count_per_colo_distinct:
  "distinct (map fst m) \<Longrightarrow> distinct (map fst (count_per_colo cs sh m))"
  by (induction cs sh m rule: count_per_colo.induct) (auto simp: map_incr_distinct)

lemma count_per_colo_get:
  "map_get (count_per_colo cs sh m) k = map_get m k + colo_count cs sh k"
  by (induction cs sh m rule: count_per_colo.induct)
    (auto simp: map_get_incr colo_count_def counted_def)

text \<open>The order in which the keys of the map are visited does not show after sorting.\<close>

lemma sort_Strings_any_order: "mset ks = mset ks' \<Longrightarrow> sort_Strings ks = sort_Strings ks'"
  unfolding sort_Strings_def by (metis mset_sort sorted_sort sorted_distinct_set_unique
      properties_for_sort)

lemma sorted_colos:
  "sort_Strings (map fst (count_per_colo cs sh [])) = colo_names cs sh"
proof -
  let ?ks = "map fst (count_per_colo cs sh [])"
  have d: "distinct ?ks" by (rule count_per_colo_distinct) simp
  have s: "set ?ks = ColoName ` set (filter (counted sh) cs)"
    by (simp add: count_per_colo_keys del: set_filter)
  have "sorted_list_of_set (set ?ks) = sort (remdups ?ks)"
    by (rule sorted_list_of_set_sort_remdups)
  also have "remdups ?ks = ?ks"
    using d by (rule distinct_remdups_id)
  finally show ?thesis
    unfolding s by (simp add: sort_Strings_def colo_names_def)
qed

text \<open>
  Claim C6. \<open>fmtConnections\<close> groups the connections by location, counts a connection
  when it is not pending reconnect or when recently disconnected connections are shown,
  and joins with a comma and a space the entries \<open><count>x<colo>\<close> of the locations that
  have a counted connection, in the order of their names. On the connections LAX, LAX
  (pending) and JFK it gives \<open>1xJFK, 1xLAX\<close> without the option and \<open>1xJFK, 2xLAX\<close> with
  it.
\<close>

theorem fmtConnections_counts_per_colo:
  "fmtConnections connections showRecentlyDisconnected =
     strings_Join
       (map (\<lambda>colo. fmt_d (colo_count connections showRecentlyDisconnected colo) @ ''x'' @ colo)
          (colo_names connections showRecentlyDisconnected)) '', '' \<and>
   fmtConnections [conn ''LAX'' False, conn ''LAX'' True, conn ''JFK'' False] False =
     ''1xJFK, 1xLAX'' \<and>
   fmtConnections [conn ''LAX'' False, conn ''LAX'' True, conn ''JFK'' False] True =
     ''1xJFK, 2xLAX''"
proof -
  have a: "fmtConnections [conn ''LAX'' False, conn ''LAX'' True, conn ''JFK'' False] False =
      ''1xJFK, 1xLAX''" by code_simp
  have b: "fmtConnections [conn ''LAX'' False, conn ''LAX'' True, conn ''JFK'' False] True =
      ''1xJFK, 2xLAX''" by code_simp
  have "fmtConnections connections showRecentlyDisconnected =
     strings_Join
       (map (\<lambda>colo. fmt_d (colo_count connections showRecentlyDisconnected colo) @ ''x'' @ colo)
          (colo_names connections showRecentlyDisconnected)) '', ''"
    by (simp add: fmtConnections_def Let_def sorted_colos count_per_colo_get)
  with a b show ?thesis by blast
qed

lemma colo_names_example:
  "colo_names [conn ''LAX'' False, conn ''SFO'' True, conn ''LAX'' False] False = [''LAX'']"
proof -
  have "ColoName ` set (filter (counted False)
      [conn ''LAX'' False, conn ''SFO'' True, conn ''LAX'' False]) = {''LAX''}"
    by (simp add: counted_def conn_def)
  then show ?thesis by (simp add: colo_names_def)
qed

theorem fmtConnections_counts_per_colo_witness:
  "fmtConnections [conn ''LAX'' False, conn ''SFO'' True, conn ''LAX'' False] False = ''2xLAX''"
proof -
  have "colo_count [conn ''LAX'' False, conn ''SFO'' True, conn ''LAX'' False] False ''LAX'' = 2"
    by (simp add: colo_count_def counted_def conn_def)
  then show ?thesis
    using fmtConnections_counts_per_colo
      [of "[conn ''LAX'' False, conn ''SFO'' True, conn ''LAX'' False]" False]
    by (simp add: colo_names_example fmt_d_small)
qed


subsection \<open>Credential writer\<close>

lemma os_Stat_existing:
  "files fs name = Some f \<Longrightarrow> stat_failure fs name = None \<Longrightarrow> os_Stat fs name = Inr f"
  by (simp add: os_Stat_def)

lemma os_Stat_missing:
  "files fs name = None \<Longrightarrow> stat_failure fs name = None \<Longrightarrow>
     os_Stat fs name = Inl (PathError ''stat'' name ENOENT)"
  by (simp add: os_Stat_def)

text \<open>
  A file is at the path, and \<open>os.Stat\<close> fails on it because a directory of the path cannot
  be searched: the error returned is that of \<open>os.Stat\<close>, not \<open><path> already exists\<close>.
\<close>

theorem existing_file_stat_error_is_not_already_exists:
  "files fs_unsearchable ''/home/u/.cloudflared/a.json'' =
     Some \<lparr>contents = ''{}'', mode = octal [6, 0, 0]\<rparr> \<and>
   fst (writeTunnelCredentials json_of_secret fs_unsearchable ''/home/u/.cloudflared/a.json''
     ''s3cret'') = Some (PathError ''stat'' ''/home/u/.cloudflared/a.json'' EACCES) \<and>
   fst (writeTunnelCredentials json_of_secret fs_unsearchable ''/home/u/.cloudflared/a.json''
     ''s3cret'') \<noteq> Some (Errorf (''/home/u/.cloudflared/a.json'' @ '' already exists''))"
  by (simp add: writeTunnelCredentials_def os_Stat_def fs_unsearchable_def fs_example_def)

text \<open>
  Claim C9. When a file exists at the path, \<open>writeTunnelCredentials\<close> fails and returns the
  file system as it was: the file keeps its contents and \<open>ioutil.WriteFile\<close> is not
  called. The error is \<open><path> already exists\<close> when \<open>os.Stat\<close> succeeds on the path;
  when \<open>os.Stat\<close> fails there (with an error other than not-exist, as the file is there)
  the error is that of \<open>os.Stat\<close>, returned as it is.
\<close>

theorem writeTunnelCredentials_existing_file_kept:
  assumes "files fs filePath = Some f" and "stat_failure fs filePath \<noteq> Some ENOENT"
  shows "writeTunnelCredentials json_Marshal fs filePath credentials =
           (Some (case stat_failure fs filePath of
                    None \<Rightarrow> Errorf (filePath @ '' already exists'')
                  | Some e \<Rightarrow> PathError ''stat'' filePath e), fs) \<and>
         files (snd (writeTunnelCredentials json_Marshal fs filePath credentials)) filePath =
           Some f \<and>
         write_calls (snd (writeTunnelCredentials json_Marshal fs filePath credentials)) =
           write_calls fs"
  using assms by (simp add: writeTunnelCredentials_def os_Stat_def split: option.splits)

theorem writeTunnelCredentials_existing_file_kept_witness:
  "writeTunnelCredentials json_of_secret fs_example ''/home/u/.cloudflared/a.json'' ''s3cret'' =
     (Some (Errorf ''/home/u/.cloudflared/a.json already exists''), fs_example) \<and>
   files (snd (writeTunnelCredentials json_of_secret fs_example ''/home/u/.cloudflared/a.json''
     ''s3cret'')) ''/home/u/.cloudflared/a.json'' =
     Some \<lparr>contents = ''{}'', mode = octal [6, 0, 0]\<rparr> \<and>
   writeTunnelCredentials json_of_secret fs_unsearchable ''/home/u/.cloudflared/a.json''
     ''s3cret'' =
     (Some (PathError ''stat'' ''/home/u/.cloudflared/a.json'' EACCES), fs_unsearchable) \<and>
   files fs_unsearchable ''/home/u/.cloudflared/a.json'' =
     Some \<lparr>contents = ''{}'', mode = octal [6, 0, 0]\<rparr>"
proof -
  have a: "files fs_example ''/home/u/.cloudflared/a.json'' =
      Some \<lparr>contents = ''{}'', mode = octal [6, 0, 0]\<rparr>"
    by (simp add: fs_example_def)
  have b: "stat_failure fs_example ''/home/u/.cloudflared/a.json'' = None"
    by (simp add: fs_example_def)
  have b': "stat_failure fs_example ''/home/u/.cloudflared/a.json'' \<noteq> Some ENOENT"
    by (simp add: b)
  have c: "files fs_unsearchable ''/home/u/.cloudflared/a.json'' =
      Some \<lparr>contents = ''{}'', mode = octal [6, 0, 0]\<rparr>"
    by (simp add: fs_unsearchable_def fs_example_def)
  have d: "stat_failure fs_unsearchable ''/home/u/.cloudflared/a.json'' = Some EACCES"
    by (simp add: fs_unsearchable_def)
  have d': "stat_failure fs_unsearchable ''/home/u/.cloudflared/a.json'' \<noteq> Some ENOENT"
    by (simp add: d)
  show ?thesis
    using writeTunnelCredentials_existing_file_kept [OF a b', of json_of_secret "''s3cret''"]
      writeTunnelCredentials_existing_file_kept [OF c d', of json_of_secret "''s3cret''"]
      a b c d
    by simp
qed

text \<open>
  When \<open>os.Stat\<close> fails with an error other than \<open>ENOENT\<close>, that error is returned and
  nothing is written.
\<close>

lemma writeTunnelCredentials_stat_error:
  "stat_failure fs filePath = Some e \<Longrightarrow> e \<noteq> ENOENT \<Longrightarrow>
     writeTunnelCredentials json_Marshal fs filePath credentials =
       (Some (PathError ''stat'' filePath e), fs)"
  by (simp add: writeTunnelCredentials_def os_Stat_def)

text \<open>
  On a path with no file the credentials are encoded and handed to \<open>ioutil.WriteFile\<close>
  with the permission argument 400; the result of that call, error included, is the
  result of \<open>writeTunnelCredentials\<close>.
\<close>

lemma writeTunnelCredentials_fresh_path:
  "files fs filePath = None \<Longrightarrow> stat_failure fs filePath = None \<Longrightarrow>
   json_Marshal credentials = Inr body \<Longrightarrow>
     writeTunnelCredentials json_Marshal fs filePath credentials =
       ioutil_WriteFile fs filePath body 400"
  by (simp add: writeTunnelCredentials_def os_Stat_missing)

lemma ioutil_WriteFile_error:
  "write_failure fs name = Some (OpenFails e) \<Longrightarrow>
     fst (ioutil_WriteFile fs name body perm) = Some (PathError ''open'' name e)"
  "write_failure fs name = Some (WriteFails e n) \<Longrightarrow>
     fst (ioutil_WriteFile fs name body perm) = Some (PathError ''write'' name e)"
  by (simp_all add: ioutil_WriteFile_def)

lemma decimal_400: "(400 :: 32 word) = octal [6, 2, 0]" "octal [6, 2, 0] \<noteq> octal [4, 0, 0]"
  by (simp_all add: octal_def)

text \<open>
  Claim C10. On a path with no file, \<open>writeTunnelCredentials\<close> writes the JSON encoding of
  the credentials, and the claim has the file created owner-read-only, with the
  permission bits 0400. The source passes the decimal number 400, which is 0620: the new
  file has the bits 0620 less the umask, so it is writable by its owner (and by the group
  when the umask allows). The theorem is the general statement; its witness is the
  example file system, whose umask is 022 and whose new file gets the bits 0600.
\<close>

theorem writeTunnelCredentials_fresh_path_mode:
  assumes "files fs filePath = None" and "stat_failure fs filePath = None"
    and "json_Marshal credentials = Inr body" and "write_failure fs filePath = None"
  shows "fst (writeTunnelCredentials json_Marshal fs filePath credentials) = None \<and>
         files (snd (writeTunnelCredentials json_Marshal fs filePath credentials)) filePath =
           Some \<lparr>contents = body, mode = and (octal [6, 2, 0]) (not (umask fs))\<rparr> \<and>
         octal [6, 2, 0] \<noteq> octal [4, 0, 0]"
  using assms
  by (simp add: writeTunnelCredentials_fresh_path ioutil_WriteFile_def create_or_truncate_def
      decimal_400 Let_def)

theorem writeTunnelCredentials_fresh_path_mode_witness:
  "fst (writeTunnelCredentials json_of_secret fs_example ''/home/u/.cloudflared/b.json'' ''s'') =
     None \<and>
   files (snd (writeTunnelCredentials json_of_secret fs_example ''/home/u/.cloudflared/b.json''
     ''s'')) ''/home/u/.cloudflared/b.json'' =
     Some \<lparr>contents = ''{\"TunnelSecret\":\"s\"}'', mode = octal [6, 0, 0]\<rparr> \<and>
   octal [6, 0, 0] \<noteq> octal [4, 0, 0]"
proof -
  have a: "files fs_example ''/home/u/.cloudflared/b.json'' = None"
    by (simp add: fs_example_def)
  have b: "stat_failure fs_example ''/home/u/.cloudflared/b.json'' = None"
    by (simp add: fs_example_def)
  have c: "json_of_secret ''s'' = Inr ''{\"TunnelSecret\":\"s\"}''"
    by (simp add: json_of_secret_def)
  have d: "write_failure fs_example ''/home/u/.cloudflared/b.json'' = None"
    by (simp add: fs_example_def)
  have e: "and (octal [6, 2, 0]) (not (umask fs_example)) = octal [6, 0, 0]"
    by (simp add: fs_example_def octal_def)
  have f: "octal [6, 0, 0] \<noteq> octal [4, 0, 0]"
    by (simp add: octal_def)
  show ?thesis
    using writeTunnelCredentials_fresh_path_mode
      [of fs_example "''/home/u/.cloudflared/b.json''" json_of_secret "''s''", OF a b c d] e f
    by simp
qed


subsection \<open>The list command: the filter\<close>

lemma set_Timestamp_when:
  "set_Timestamp listCommand_Flags ''when'' t c =
     Inr (c\<lparr>timestamp_flags := bind_all [''when'', ''w''] t (timestamp_flags c)\<rparr>)"
  by (simp add: listCommand_Flags_def outputFormatFlag_def showDeletedFlag_def listNameFlag_def
      listExistedAtFlag_def)

lemma listCommand_filter_byExistedAt:
  "listCommand_filter uuid_Parse c = Inr f \<Longrightarrow> byExistedAt f = ctx_Timestamp c ''time''"
  by (auto simp: listCommand_filter_def Let_def NewFilter_def NoDeleted_def ByName_def
      ByExistedAt_def ByTunnelID_def split: if_splits sum.splits option.splits)

text \<open>
  Claim C2. When \<open>--when\<close> is given a time, the claim has the filter carry the predicate
  of existence at that time. \<open>listCommand\<close> reads the timestamp flag named \<open>time\<close>, and
  the flag of the list command is named \<open>when\<close> (alias \<open>w\<close>): in a context where \<open>--when\<close>
  was set and no flag \<open>time\<close> has a value, the flag \<open>when\<close> holds the time and the
  filter has no predicate on the time of existence.
\<close>

theorem listCommand_filter_ignores_when:
  assumes "set_Timestamp listCommand_Flags ''when'' t c = Inr c'"
    and "timestamp_flags c ''time'' = None"
    and "listCommand_filter uuid_Parse c' = Inr f"
  shows "ctx_Timestamp c' ''when'' = Some t \<and> byExistedAt f = None"
proof -
  from assms(1) have c': "c' = c\<lparr>timestamp_flags := bind_all [''when'', ''w''] t (timestamp_flags c)\<rparr>"
    by (simp add: set_Timestamp_when)
  have "ctx_Timestamp c' ''when'' = Some t"
    by (simp add: c' ctx_Timestamp_def)
  moreover have "ctx_Timestamp c' ''time'' = None"
    using assms(2) by (simp add: c' ctx_Timestamp_def)
  ultimately show ?thesis
    using listCommand_filter_byExistedAt [OF assms(3)] by simp
qed

lemma new_Context_list_time: "timestamp_flags (new_Context listCommand_Flags []) = Map.empty"
  by (simp add: new_Context_def listCommand_Flags_def outputFormatFlag_def showDeletedFlag_def
      listNameFlag_def listExistedAtFlag_def listIDFlag_def showRecentlyDisconnected_flag_def
      sortByFlag_def invertSortFlag_def ctx_of_args_def)

theorem listCommand_filter_ignores_when_witness:
  "set_Timestamp listCommand_Flags ''when'' june_2021 (new_Context listCommand_Flags []) =
     Inr list_when_june \<and>
   timestamp_flags (new_Context listCommand_Flags []) ''time'' = None \<and>
   listCommand_filter no_uuid list_when_june = Inr (NoDeleted NewFilter) \<and>
   ctx_Timestamp list_when_june ''when'' = Some june_2021 \<and>
   byExistedAt (NoDeleted NewFilter) = None"
proof -
  have a: "set_Timestamp listCommand_Flags ''when'' june_2021 (new_Context listCommand_Flags []) =
      Inr list_when_june"
    by (simp add: set_Timestamp_when list_when_june_def new_Context_list_time)
  have b: "timestamp_flags (new_Context listCommand_Flags []) ''time'' = None"
    by (simp add: new_Context_list_time)
  have c: "listCommand_filter no_uuid list_when_june = Inr (NoDeleted NewFilter)"
    by (simp add: listCommand_filter_def list_when_june_def new_Context_def listCommand_Flags_def
        outputFormatFlag_def showDeletedFlag_def listNameFlag_def listExistedAtFlag_def
        listIDFlag_def showRecentlyDisconnected_flag_def sortByFlag_def invertSortFlag_def
        ctx_of_args_def ctx_Bool_def ctx_String_def ctx_Timestamp_def Let_def)
  show ?thesis
    using listCommand_filter_ignores_when [OF a b c] a b c by simp
qed


subsection \<open>Sort engine: an unknown key\<close>

lemma quickSort_func_short: "b - a \<le> 1 \<Longrightarrow> quickSort_func lessFn data a b depth = data"
  by (cases depth) (simp_all add: quickSort_func.simps)

lemma sort_Slice_short: "length (fst data) \<le> 1 \<Longrightarrow> sort_Slice lessFn data = data"
  by (simp add: sort_Slice_def quickSort_func_short)

lemma list_ctx_flags:
  "ctx_String (list_ctx sortBy invert) ''sort-by'' = sortBy"
  "ctx_Bool (list_ctx sortBy invert) ''invert-sort'' = invert"
  by (simp_all add: list_ctx_def ctx_String_def ctx_Bool_def Let_def)

lemma info_ctx_flags:
  "ctx_String (info_ctx sortBy invert) ''sort-by'' = sortBy"
  "ctx_Bool (info_ctx sortBy invert) ''invert-sort'' = invert"
  by (simp_all add: info_ctx_def ctx_String_def ctx_Bool_def Let_def)

text \<open>
  Claim C3. For a sort key that is not supported the claim has both sorts fall back to
  the default comparison and set \<open>invalidSortField\<close>, so that the warning is logged. The
  variable is set inside the comparison closure, and \<open>sort.Slice\<close> does not call the
  closure on a slice of fewer than two elements: on such a slice both commands return
  the records with no message in the log, whatever the key is.
\<close>

theorem invalid_sort_key_not_reported_on_short_lists:
  "(length tunnels \<le> 1 \<longrightarrow> listCommand_sort c tunnels = (tunnels, [])) \<and>
   (length clients \<le> 1 \<longrightarrow> tunnelInfo_sort c' clients = (clients, []))"
  by (simp add: listCommand_sort_def tunnelInfo_sort_def sort_Slice_short Let_def)

theorem invalid_sort_key_not_reported_on_short_lists_witness:
  "ctx_String (list_ctx ''bogus'' False) ''sort-by'' = ''bogus'' \<and>
   ''bogus'' \<notin> set tunnel_sort_keys \<and>
   listCommand_sort (list_ctx ''bogus'' False) [tunnel 1 ''a''] = ([tunnel 1 ''a''], []) \<and>
   ctx_String (info_ctx ''bogus'' False) ''sort-by'' = ''bogus'' \<and>
   ''bogus'' \<notin> set client_sort_keys \<and>
   tunnelInfo_sort (info_ctx ''bogus'' False) [client 1 ''2021.5.9''] =
     ([client 1 ''2021.5.9''], [])"
  using invalid_sort_key_not_reported_on_short_lists
    [of "[tunnel 1 ''a'']" "list_ctx ''bogus'' False" "[client 1 ''2021.5.9'']"
      "info_ctx ''bogus'' False"]
  by (simp add: list_ctx_flags info_ctx_flags tunnel_sort_keys_def client_sort_keys_def)

subsection \<open>Sort engine: sorting, then sorting inverted\<close>

text \<open>
  The flag \<open>invert-sort\<close> negates the result of the comparison and does not change which
  comparison is made, nor what happens to \<open>invalidSortField\<close>.
\<close>

lemma listCommand_less_invert:
  "listCommand_less (list_ctx sortBy True) sortBy ti tj s =
     (\<not> fst (listCommand_less (list_ctx sortBy False) sortBy ti tj s),
      snd (listCommand_less (list_ctx sortBy False) sortBy ti tj s))"
  by (simp add: listCommand_less_def list_ctx_flags)

text \<open>
  Sorted by name, the seven tunnels named a, a, b, c, d, e, f stay as they are; sorted
  again with the order inverted, the two tunnels named a come in the same order as
  before, not in the reverse order.
\<close>

lemma seven_tunnels_sorted: "sort_tunnels ''name'' False seven_tunnels = seven_tunnels"
  by code_simp

lemma seven_tunnels_inverted:
  "sort_tunnels ''name'' True seven_tunnels =
     [tunnel 7 ''f'', tunnel 6 ''e'', tunnel 5 ''d'', tunnel 4 ''c'', tunnel 3 ''b'',
      tunnel 1 ''a'', tunnel 2 ''a'']"
  by code_simp

theorem inverted_sort_is_not_the_reverse:
  "sort_tunnels ''name'' True (sort_tunnels ''name'' False seven_tunnels) \<noteq>
     rev (sort_tunnels ''name'' False seven_tunnels)"
proof -
  have "tunnel 1 ''a'' \<noteq> tunnel 2 ''a''"
    by (simp add: tunnel_def)
  then show ?thesis
    by (simp add: seven_tunnels_sorted seven_tunnels_inverted) (simp add: seven_tunnels_def)
qed


subsection \<open>Sort engine: \<open>sort.Slice\<close> sorts\<close>

lemma fst_snd_Less [simp]: "fst (snd (Less lessFn data i j)) = fst data"
  by (simp add: Less_def case_prod_beta)

lemma fst_Swap [simp]: "fst (Swap data i j) = (fst data)[i := fst data ! j, j := fst data ! i]"
  by (simp add: Swap_def)

lemma fst_Less:
  assumes "keyed lessFn key (set (fst data))" and "distinct (fst data)"
    and "i < length (fst data)" and "j < length (fst data)" and "i \<noteq> j"
  shows "fst (Less lessFn data i j) = (key (fst data ! i) < key (fst data ! j))"
proof -
  have "fst data ! i \<noteq> fst data ! j"
    using assms(2-5) by (simp add: nth_eq_iff_index_eq)
  then show ?thesis
    using assms(1,3,4) by (simp add: Less_def case_prod_beta keyed_def)
qed

lemma keyed_keys_differ:
  assumes "keyed lessFn key (set xs)" and "distinct xs"
    and "i < length xs" and "j < length xs" and "i \<noteq> j"
  shows "key (xs ! i) \<noteq> key (xs ! j)"
proof -
  have "xs ! i \<noteq> xs ! j"
    using assms(2-5) by (simp add: nth_eq_iff_index_eq)
  moreover have "inj_on key (set xs)"
    using assms(1) by (simp add: keyed_def)
  ultimately show ?thesis
    using assms(3,4) by (meson inj_onD nth_mem)
qed

lemma permuted_in_refl: "permuted_in a b xs xs"
  by (simp add: permuted_in_def)

lemma permuted_in_trans:
  "permuted_in a b xs ys \<Longrightarrow> permuted_in a b ys zs \<Longrightarrow> permuted_in a b xs zs"
  by (simp add: permuted_in_def)

lemma permuted_in_widen:
  "permuted_in a b xs ys \<Longrightarrow> a' \<le> a \<Longrightarrow> b \<le> b' \<Longrightarrow> permuted_in a' b' xs ys"
  by (auto simp: permuted_in_def)

lemma permuted_in_swap:
  "a \<le> i \<Longrightarrow> i < b \<Longrightarrow> a \<le> j \<Longrightarrow> j < b \<Longrightarrow> b \<le> length xs \<Longrightarrow>
     permuted_in a b xs (xs[i := xs ! j, j := xs ! i])"
  by (auto simp: permuted_in_def mset_swap)

lemma permuted_in_length: "permuted_in a b xs ys \<Longrightarrow> length ys = length xs"
  by (simp add: permuted_in_def)

lemma permuted_in_set: "permuted_in a b xs ys \<Longrightarrow> set ys = set xs"
  by (metis permuted_in_def mset_eq_setD)

lemma permuted_in_distinct: "permuted_in a b xs ys \<Longrightarrow> distinct ys = distinct xs"
  by (metis permuted_in_def mset_eq_imp_distinct_iff)

lemma permuted_in_outside:
  "permuted_in a b xs ys \<Longrightarrow> i < length xs \<Longrightarrow> i < a \<or> b \<le> i \<Longrightarrow> ys ! i = xs ! i"
  by (auto simp: permuted_in_def)

text \<open>The elements at the positions from \<open>a\<close> up to \<open>b\<close> stay at these positions.\<close>

lemma permuted_in_slice:
  assumes "permuted_in a b xs ys" and "a \<le> b" and "b \<le> length xs"
  shows "mset (take (b - a) (drop a ys)) = mset (take (b - a) (drop a xs))"
proof -
  have len: "length ys = length xs" using assms(1) by (simp add: permuted_in_def)
  have split: "\<And>zs::'a list. length zs = length xs \<Longrightarrow>
      zs = take a zs @ take (b - a) (drop a zs) @ drop b zs"
    using assms(2,3)
    by (metis append_take_drop_id drop_drop le_add_diff_inverse2 add.commute)
  have t: "take a ys = take a xs"
    using assms len by (auto simp: permuted_in_def intro!: nth_equalityI)
  have d: "drop b ys = drop b xs"
    using assms len by (auto simp: permuted_in_def intro!: nth_equalityI)
  have "mset ys = mset (take a ys) + mset (take (b - a) (drop a ys)) + mset (drop b ys)"
    using split [OF len] by (metis mset_append add.assoc)
  moreover have "mset xs = mset (take a xs) + mset (take (b - a) (drop a xs)) + mset (drop b xs)"
    using split [OF refl] by (metis mset_append add.assoc)
  moreover have "mset ys = mset xs" using assms(1) by (simp add: permuted_in_def)
  ultimately show ?thesis using t d by simp
qed

lemma permuted_in_member:
  assumes "permuted_in a b xs ys" and "a \<le> i" and "i < b" and "b \<le> length xs"
  shows "\<exists>j. a \<le> j \<and> j < b \<and> ys ! i = xs ! j"
proof -
  have len: "length ys = length xs" using assms(1) by (simp add: permuted_in_def)
  have "a \<le> b" using assms by simp
  from permuted_in_slice [OF assms(1) this assms(4)]
  have s: "set (take (b - a) (drop a ys)) = set (take (b - a) (drop a xs))"
    by (rule mset_eq_setD)
  have "ys ! i = take (b - a) (drop a ys) ! (i - a)"
    using assms len by simp
  moreover have "i - a < length (take (b - a) (drop a ys))"
    using assms len by simp
  ultimately have "ys ! i \<in> set (take (b - a) (drop a ys))"
    by (metis nth_mem)
  with s have "ys ! i \<in> set (take (b - a) (drop a xs))" by simp
  then obtain k where k: "k < length (take (b - a) (drop a xs))"
      "take (b - a) (drop a xs) ! k = ys ! i"
    by (metis in_set_conv_nth)
  then have "k < b - a" by simp
  moreover have "take (b - a) (drop a xs) ! k = xs ! (a + k)"
    using k(1) assms by simp
  ultimately show ?thesis
    using k(2) by (intro exI [of _ "a + k"]) auto
qed

lemma permuted_in_all:
  assumes "permuted_in a b xs ys" and "b \<le> length xs"
    and "\<forall>i. a \<le> i \<and> i < b \<longrightarrow> P (xs ! i)"
  shows "\<forall>i. a \<le> i \<and> i < b \<longrightarrow> P (ys ! i)"
  using permuted_in_member [OF assms(1) _ _ assms(2)] assms(3) by metis

lemma permuted_in_keyed:
  "permuted_in a b xs ys \<Longrightarrow> keyed lessFn key (set xs) \<Longrightarrow> keyed lessFn key (set ys)"
  by (simp add: permuted_in_set)


lemma sortable_permuted:
  "permuted_in a b xs ys \<Longrightarrow> sortable lessFn key xs \<Longrightarrow> sortable lessFn key ys"
  by (simp add: sortable_def permuted_in_set permuted_in_distinct)

lemma sortable_Less:
  "sortable lessFn key (fst data) \<Longrightarrow> i < length (fst data) \<Longrightarrow> j < length (fst data) \<Longrightarrow>
   i \<noteq> j \<Longrightarrow> fst (Less lessFn data i j) = (key (fst data ! i) < key (fst data ! j))"
  by (simp add: sortable_def fst_Less)

lemma sortable_keys_differ:
  "sortable lessFn key xs \<Longrightarrow> i < length xs \<Longrightarrow> j < length xs \<Longrightarrow> i \<noteq> j \<Longrightarrow>
     key (xs ! i) \<noteq> key (xs ! j)"
  unfolding sortable_def using keyed_keys_differ by blast

lemma sortable_snd_Less [simp]:
  "sortable lessFn key (fst (snd (Less lessFn data i j))) = sortable lessFn key (fst data)"
  by simp

subsubsection \<open>Insertion sort\<close>

lemma insertionSort_inner_unfold:
  "insertionSort_inner lessFn data a j =
     (if a < j \<and> fst (Less lessFn data j (j - 1))
      then insertionSort_inner lessFn (Swap (snd (Less lessFn data j (j - 1))) j (j - 1)) a (j - 1)
      else if a < j then snd (Less lessFn data j (j - 1)) else data)"
  by (subst insertionSort_inner.simps) (simp add: case_prod_beta)

text \<open>
  The inner loop moves the element at \<open>j\<close> to the left. While it runs, the positions from
  \<open>a\<close> to \<open>e\<close> without \<open>j\<close> are in order, and the element at \<open>j\<close> is below all that
  follow it.
\<close>

lemma insertionSort_inner_sorts:
  assumes "sortable lessFn key (fst data)" and "a \<le> j" and "j \<le> e"
    and "e < length (fst data)"
    and "\<forall>i k. a \<le> i \<and> i < k \<and> k \<le> e \<and> i \<noteq> j \<and> k \<noteq> j \<longrightarrow>
           key (fst data ! i) < key (fst data ! k)"
    and "\<forall>k. j < k \<and> k \<le> e \<longrightarrow> key (fst data ! j) < key (fst data ! k)"
  shows "permuted_in a (Suc e) (fst data) (fst (insertionSort_inner lessFn data a j)) \<and>
         sorted_in key (fst (insertionSort_inner lessFn data a j)) a (Suc e)"
  using assms
proof (induction lessFn data a j rule: insertionSort_inner.induct)
  case (1 lessFn data a j)
  let ?xs = "fst data"
  let ?L = "Less lessFn data j (j - 1)"
  have P5: "\<And>i k. a \<le> i \<Longrightarrow> i < k \<Longrightarrow> k \<le> e \<Longrightarrow> i \<noteq> j \<Longrightarrow> k \<noteq> j \<Longrightarrow>
      key (?xs ! i) < key (?xs ! k)"
    using "1.prems"(5) by blast
  have P6: "\<And>k. j < k \<Longrightarrow> k \<le> e \<Longrightarrow> key (?xs ! j) < key (?xs ! k)"
    using "1.prems"(6) by blast
  show ?case
  proof (cases "a < j \<and> fst ?L")
    case True
    then have aj: "a < j" and lt: "fst ?L" by simp_all
    have jlen: "j < length ?xs" "j - 1 < length ?xs" "j \<noteq> j - 1"
      using aj "1.prems"(3,4) by linarith+
    have klt: "key (?xs ! j) < key (?xs ! (j - 1))"
      using lt sortable_Less [OF "1.prems"(1) jlen] by simp
    let ?d = "Swap (snd ?L) j (j - 1)"
    define ys where "ys = ?xs[j := ?xs ! (j - 1), j - 1 := ?xs ! j]"
    have ys: "fst ?d = ys" by (simp add: ys_def)
    have perm: "permuted_in a (Suc e) ?xs ys"
      unfolding ys_def
    proof (rule permuted_in_swap)
      show "a \<le> j" "j < Suc e" "a \<le> j - 1" "j - 1 < Suc e" "Suc e \<le> length ?xs"
        using aj "1.prems"(3,4) by linarith+
    qed
    have srt: "sortable lessFn key ys"
      using perm "1.prems"(1) by (rule sortable_permuted)
    have nth_ys: "\<And>i. i < length ?xs \<Longrightarrow>
        ys ! i = (if i = j - 1 then ?xs ! j else if i = j then ?xs ! (j - 1) else ?xs ! i)"
      using jlen by (simp add: ys_def nth_list_update)
    have inv1: "\<forall>i k. a \<le> i \<and> i < k \<and> k \<le> e \<and> i \<noteq> j - 1 \<and> k \<noteq> j - 1 \<longrightarrow>
           key (ys ! i) < key (ys ! k)"
    proof (intro allI impI)
      fix i k
      assume h: "a \<le> i \<and> i < k \<and> k \<le> e \<and> i \<noteq> j - 1 \<and> k \<noteq> j - 1"
      then have il: "i < length ?xs" and kl: "k < length ?xs"
        using "1.prems"(4) by linarith+
      show "key (ys ! i) < key (ys ! k)"
      proof (cases "i = j")
        case True
        have "key (?xs ! (j - 1)) < key (?xs ! k)"
        proof (rule P5)
          show "a \<le> j - 1" "j - 1 < k" "k \<le> e" "j - 1 \<noteq> j" "k \<noteq> j"
            using h aj True by linarith+
        qed
        moreover have "k \<noteq> j" using h True by linarith
        ultimately show ?thesis
          using h True nth_ys [OF il] nth_ys [OF kl] by simp
      next
        case False
        show ?thesis
        proof (cases "k = j")
          case True
          have "key (?xs ! i) < key (?xs ! (j - 1))"
          proof (rule P5)
            show "a \<le> i" "i < j - 1" "j - 1 \<le> e" "i \<noteq> j" "j - 1 \<noteq> j"
              using h aj True by linarith+
          qed
          then show ?thesis
            using h True False nth_ys [OF il] nth_ys [OF kl] by simp
        next
          case kj: False
          have "key (?xs ! i) < key (?xs ! k)"
            using h False kj by (intro P5) linarith+
          then show ?thesis
            using h False kj nth_ys [OF il] nth_ys [OF kl] by simp
        qed
      qed
    qed
    have inv2: "\<forall>k. j - 1 < k \<and> k \<le> e \<longrightarrow> key (ys ! (j - 1)) < key (ys ! k)"
    proof (intro allI impI)
      fix k
      assume h: "j - 1 < k \<and> k \<le> e"
      then have kl: "k < length ?xs" using "1.prems"(4) by linarith
      show "key (ys ! (j - 1)) < key (ys ! k)"
      proof (cases "k = j")
        case True
        then show ?thesis using klt jlen nth_ys [OF jlen(1)] nth_ys [OF jlen(2)] by simp
      next
        case False
        then have "j < k" using h by linarith
        then have "key (?xs ! j) < key (?xs ! k)" using h by (intro P6) linarith+
        then show ?thesis using False h jlen nth_ys [OF kl] nth_ys [OF jlen(2)] by simp
      qed
    qed
    have IH: "permuted_in a (Suc e) ys (fst (insertionSort_inner lessFn ?d a (j - 1))) \<and>
         sorted_in key (fst (insertionSort_inner lessFn ?d a (j - 1))) a (Suc e)"
    proof (rule "1.IH" [OF aj prod.collapse lt, unfolded ys])
      show "sortable lessFn key ys" by (rule srt)
      show "a \<le> j - 1" "j - 1 \<le> e" using aj "1.prems"(3) by linarith+
      show "e < length ys" using "1.prems"(4) by (simp add: ys_def)
      show "\<forall>i k. a \<le> i \<and> i < k \<and> k \<le> e \<and> i \<noteq> j - 1 \<and> k \<noteq> j - 1 \<longrightarrow>
           key (ys ! i) < key (ys ! k)" by (rule inv1)
      show "\<forall>k. j - 1 < k \<and> k \<le> e \<longrightarrow> key (ys ! (j - 1)) < key (ys ! k)" by (rule inv2)
    qed
    have eq: "insertionSort_inner lessFn data a j = insertionSort_inner lessFn ?d a (j - 1)"
      using True by (subst insertionSort_inner_unfold) simp
    show ?thesis
      unfolding eq using IH perm permuted_in_trans by blast
  next
    case False
    then have eq: "fst (insertionSort_inner lessFn data a j) = ?xs"
      by (subst insertionSort_inner_unfold) auto
    have stop: "a < j \<Longrightarrow> key (?xs ! (j - 1)) < key (?xs ! j)"
    proof -
      assume aj: "a < j"
      have jlen: "j < length ?xs" "j - 1 < length ?xs" "j \<noteq> j - 1"
        using aj "1.prems"(3,4) by linarith+
      have "\<not> key (?xs ! j) < key (?xs ! (j - 1))"
        using False aj sortable_Less [OF "1.prems"(1) jlen] by simp
      moreover have "key (?xs ! j) \<noteq> key (?xs ! (j - 1))"
        using sortable_keys_differ [OF "1.prems"(1) jlen] .
      ultimately show "key (?xs ! (j - 1)) < key (?xs ! j)" by linarith
    qed
    have "sorted_in key ?xs a (Suc e)"
      unfolding sorted_in_def
    proof (intro allI impI)
      fix i k
      assume h: "a \<le> i \<and> i < k \<and> k < Suc e"
      show "key (?xs ! i) < key (?xs ! k)"
      proof (cases "k = j")
        case True
        then have aj: "a < j" using h by linarith
        show ?thesis
        proof (cases "i = j - 1")
          case True
          then show ?thesis using stop [OF aj] \<open>k = j\<close> by simp
        next
          case False
          have "key (?xs ! i) < key (?xs ! (j - 1))"
          proof (rule P5)
            show "a \<le> i" "i < j - 1" "j - 1 \<le> e" "i \<noteq> j" "j - 1 \<noteq> j"
              using h aj \<open>k = j\<close> False by linarith+
          qed
          then show ?thesis using stop [OF aj] \<open>k = j\<close> by simp
        qed
      next
        case False
        show ?thesis
        proof (cases "i = j")
          case True
          have "key (?xs ! j) < key (?xs ! k)"
            using h True by (intro P6) linarith+
          then show ?thesis using True by simp
        next
          case ij: False
          then show ?thesis using h False by (intro P5) linarith+
        qed
      qed
    qed
    then show ?thesis
      unfolding eq by (simp add: permuted_in_refl)
  qed
qed


lemma sorted_in_empty: "b \<le> Suc a \<Longrightarrow> sorted_in key xs a b"
  by (auto simp: sorted_in_def)

lemma insertionSort_loop_sorts:
  assumes "sortable lessFn key (fst data)" and "a < i" and "i \<le> b"
    and "b \<le> length (fst data)" and "sorted_in key (fst data) a i"
  shows "permuted_in a b (fst data) (fst (insertionSort_loop lessFn data a b i)) \<and>
         sorted_in key (fst (insertionSort_loop lessFn data a b i)) a b"
  using assms
proof (induction lessFn data a b i rule: insertionSort_loop.induct)
  case (1 lessFn data a b i)
  show ?case
  proof (cases "i < b")
    case True
    let ?d = "insertionSort_inner lessFn data a i"
    have inner: "permuted_in a (Suc i) (fst data) (fst ?d) \<and> sorted_in key (fst ?d) a (Suc i)"
    proof (rule insertionSort_inner_sorts)
      show "sortable lessFn key (fst data)" by (rule "1.prems"(1))
      show "a \<le> i" "i \<le> i" using "1.prems"(2) by simp_all
      show "i < length (fst data)" using True "1.prems"(4) by linarith
      show "\<forall>j k. a \<le> j \<and> j < k \<and> k \<le> i \<and> j \<noteq> i \<and> k \<noteq> i \<longrightarrow>
          key (fst data ! j) < key (fst data ! k)"
        using "1.prems"(5) by (auto simp: sorted_in_def)
      show "\<forall>k. i < k \<and> k \<le> i \<longrightarrow> key (fst data ! i) < key (fst data ! k)"
        by simp
    qed
    then have perm: "permuted_in a b (fst data) (fst ?d)"
      using True by (auto intro: permuted_in_widen)
    have IH: "permuted_in a b (fst ?d) (fst (insertionSort_loop lessFn ?d a b (i + 1))) \<and>
         sorted_in key (fst (insertionSort_loop lessFn ?d a b (i + 1))) a b"
    proof (rule "1.IH" [OF True])
      show "sortable lessFn key (fst ?d)"
        using perm "1.prems"(1) by (rule sortable_permuted)
      show "a < i + 1" "i + 1 \<le> b" using "1.prems"(2) True by simp_all
      show "b \<le> length (fst ?d)"
        using perm "1.prems"(4) by (simp add: permuted_in_length)
      show "sorted_in key (fst ?d) a (i + 1)" using inner by simp
    qed
    have eq: "insertionSort_loop lessFn data a b i = insertionSort_loop lessFn ?d a b (i + 1)"
      using True by (subst insertionSort_loop.simps) simp
    show ?thesis
      unfolding eq using IH perm permuted_in_trans by blast
  next
    case False
    then have "insertionSort_loop lessFn data a b i = data"
      by (subst insertionSort_loop.simps) simp
    moreover have "i = b" using False "1.prems"(3) by simp
    ultimately show ?thesis
      using "1.prems"(5) by (simp add: permuted_in_refl)
  qed
qed

lemma insertionSort_func_sorts:
  assumes "sortable lessFn key (fst data)" and "a < b" and "b \<le> length (fst data)"
  shows "permuted_in a b (fst data) (fst (insertionSort_func lessFn data a b)) \<and>
         sorted_in key (fst (insertionSort_func lessFn data a b)) a b"
  unfolding insertionSort_func_def
  using assms by (intro insertionSort_loop_sorts) (simp_all add: sorted_in_empty)

subsubsection \<open>The pass with the gap 6\<close>

lemma fst_swap_if_less:
  "fst (snd (swap_if_less lessFn data i j)) =
     (if fst (Less lessFn data i j) then (fst data)[i := fst data ! j, j := fst data ! i]
      else fst data)"
  by (simp add: swap_if_less_def case_prod_beta)

lemma swap_if_less_permuted:
  "a \<le> i \<Longrightarrow> i < b \<Longrightarrow> a \<le> j \<Longrightarrow> j < b \<Longrightarrow> b \<le> length (fst data) \<Longrightarrow>
     permuted_in a b (fst data) (fst (snd (swap_if_less lessFn data i j)))"
  by (simp add: fst_swap_if_less permuted_in_swap permuted_in_refl)

lemma shell_pass_permuted:
  assumes "a + 6 \<le> i" and "b \<le> length (fst data)"
  shows "permuted_in a b (fst data) (fst (shell_pass lessFn data b i))"
  using assms
proof (induction lessFn data b i rule: shell_pass.induct)
  case (1 lessFn data b i)
  show ?case
  proof (cases "i < b")
    case True
    let ?d = "snd (swap_if_less lessFn data i (i - 6))"
    have perm: "permuted_in a b (fst data) (fst ?d)"
      using True "1.prems" by (intro swap_if_less_permuted) linarith+
    have "permuted_in a b (fst ?d) (fst (shell_pass lessFn ?d b (i + 1)))"
      using "1.IH" [OF True] "1.prems" perm by (simp add: permuted_in_length)
    moreover have "shell_pass lessFn data b i = shell_pass lessFn ?d b (i + 1)"
      using True by (subst shell_pass.simps) simp
    ultimately show ?thesis
      using perm permuted_in_trans by metis
  next
    case False
    then have "shell_pass lessFn data b i = data"
      by (subst shell_pass.simps) simp
    then show ?thesis by (simp add: permuted_in_refl)
  qed
qed

text \<open>The last part of \<open>quickSort_func\<close> sorts a range of two elements or more.\<close>

lemma small_range_sorts:
  assumes "sortable lessFn key (fst data)" and "a < b" and "b \<le> length (fst data)"
  shows "permuted_in a b (fst data)
           (fst (insertionSort_func lessFn (shell_pass lessFn data b (a + 6)) a b)) \<and>
         sorted_in key (fst (insertionSort_func lessFn (shell_pass lessFn data b (a + 6)) a b)) a b"
proof -
  let ?d = "shell_pass lessFn data b (a + 6)"
  have perm: "permuted_in a b (fst data) (fst ?d)"
    using assms(3) by (intro shell_pass_permuted) simp_all
  have "permuted_in a b (fst ?d) (fst (insertionSort_func lessFn ?d a b)) \<and>
      sorted_in key (fst (insertionSort_func lessFn ?d a b)) a b"
  proof (rule insertionSort_func_sorts)
    show "sortable lessFn key (fst ?d)" using perm assms(1) by (rule sortable_permuted)
    show "a < b" by (rule assms(2))
    show "b \<le> length (fst ?d)" using perm assms(3) by (simp add: permuted_in_length)
  qed
  then show ?thesis
    using perm permuted_in_trans by blast
qed


subsubsection \<open>Heapsort\<close>

lemma fst_snd_siftDown_child [simp]:
  "fst (snd (siftDown_child lessFn data child hi first)) = fst data"
  by (simp add: siftDown_child_def case_prod_beta)

lemma fst_siftDown_child:
  "fst (siftDown_child lessFn data child hi first) =
     (if child + 1 < hi \<and> fst (Less lessFn data (first + child) (first + child + 1))
      then child + 1 else child)"
  by (simp add: siftDown_child_def case_prod_beta)

lemma siftDown_func_unfold:
  "siftDown_func lessFn data root hi first =
     (if 2 * root + 1 \<ge> hi then data
      else
        (let c = siftDown_child lessFn data (2 * root + 1) hi first;
             l = Less lessFn (snd c) (first + root) (first + fst c)
         in if \<not> fst l then snd l
            else siftDown_func lessFn (Swap (snd l) (first + root) (first + fst c)) (fst c) hi first))"
  by (subst siftDown_func.simps) (simp add: case_prod_beta Let_def)

lemma siftDown_func_heap:
  assumes "sortable lessFn key (fst data)" and "first + hi \<le> length (fst data)"
    and "lo \<le> root" and "heap_except key (fst data) first lo hi root"
  shows "permuted_in first (first + hi) (fst data) (fst (siftDown_func lessFn data root hi first)) \<and>
         is_heap key (fst (siftDown_func lessFn data root hi first)) first lo hi"
  using assms
proof (induction lessFn data root hi first rule: siftDown_func.induct)
  case (1 lessFn data root hi first)
  let ?xs = "fst data"
  define k where "k = (\<lambda>i. key (?xs ! (first + i)))"
  have H1: "\<And>p c. lo \<le> p \<Longrightarrow> p \<noteq> root \<Longrightarrow> c < hi \<Longrightarrow> c = 2 * p + 1 \<or> c = 2 * p + 2 \<Longrightarrow>
      k c < k p"
    using "1.prems"(4) unfolding heap_except_def k_def by blast
  have H2: "\<And>p c. lo \<le> p \<Longrightarrow> root = 2 * p + 1 \<or> root = 2 * p + 2 \<Longrightarrow> c < hi \<Longrightarrow>
      c = 2 * root + 1 \<or> c = 2 * root + 2 \<Longrightarrow> k c < k p"
    using "1.prems"(4) unfolding heap_except_def k_def by blast
  have kless: "\<And>i j. i < hi \<Longrightarrow> j < hi \<Longrightarrow> i \<noteq> j \<Longrightarrow>
      fst (Less lessFn data (first + i) (first + j)) = (k i < k j)"
    unfolding k_def using "1.prems"(2) by (intro sortable_Less [OF "1.prems"(1)]) linarith+
  have kneq: "\<And>i j. i < hi \<Longrightarrow> j < hi \<Longrightarrow> i \<noteq> j \<Longrightarrow> k i \<noteq> k j"
    unfolding k_def using "1.prems"(2) by (intro sortable_keys_differ [OF "1.prems"(1)]) linarith+
  show ?case
  proof (cases "2 * root + 1 \<ge> hi")
    case True
    then have eq: "siftDown_func lessFn data root hi first = data"
      by (subst siftDown_func_unfold) simp
    have "is_heap key ?xs first lo hi"
      unfolding is_heap_def
    proof (intro allI impI)
      fix p c
      assume h: "lo \<le> p \<and> c < hi \<and> (c = 2 * p + 1 \<or> c = 2 * p + 2)"
      then have "p \<noteq> root" using True by linarith
      then show "key (?xs ! (first + c)) < key (?xs ! (first + p))"
        using H1 [of p c] h unfolding k_def by blast
    qed
    then show ?thesis unfolding eq by (simp add: permuted_in_refl)
  next
    case False
    define c0 where "c0 = 2 * root + 1"
    have c0: "c0 < hi" "root < c0" using False by (simp_all add: c0_def)
    let ?c = "siftDown_child lessFn data c0 hi first"
    define child where "child = fst ?c"
    have child_eq: "child = (if c0 + 1 < hi \<and> k c0 < k (c0 + 1) then c0 + 1 else c0)"
      unfolding child_def fst_siftDown_child
      using kless [of c0 "c0 + 1"] by (auto simp: add.assoc)
    have child: "child < hi" "child = c0 \<or> child = c0 + 1" "root < child"
      using c0 by (auto simp: child_eq)
    have other: "\<And>c. c < hi \<Longrightarrow> c = c0 \<or> c = c0 + 1 \<Longrightarrow> c \<noteq> child \<Longrightarrow> k c < k child"
    proof -
      fix c assume h: "c < hi" "c = c0 \<or> c = c0 + 1" "c \<noteq> child"
      show "k c < k child"
      proof (cases "c0 + 1 < hi \<and> k c0 < k (c0 + 1)")
        case True
        then show ?thesis using h child_eq by auto
      next
        case False
        then have ch: "child = c0" using child_eq by simp
        then have "c = c0 + 1" using h by auto
        then have "\<not> k c0 < k (c0 + 1)" "k c0 \<noteq> k (c0 + 1)"
          using False h c0 kneq [of c0 "c0 + 1"] by auto
        then show ?thesis using ch \<open>c = c0 + 1\<close> by simp
      qed
    qed
    let ?l = "Less lessFn (snd ?c) (first + root) (first + child)"
    have l: "fst ?l = (k root < k child)"
    proof -
      have "fst ?l = (key (fst (snd ?c) ! (first + root)) < key (fst (snd ?c) ! (first + child)))"
      proof (rule sortable_Less)
        show "sortable lessFn key (fst (snd ?c))" using "1.prems"(1) by simp
        show "first + root < length (fst (snd ?c))" using "1.prems"(2) child c0 by simp
        show "first + child < length (fst (snd ?c))" using "1.prems"(2) child c0 by simp
        show "first + root \<noteq> first + child" using child by simp
      qed
      then show ?thesis by (simp add: k_def)
    qed
    show ?thesis
    proof (cases "fst ?l")
      case nl: False
      then have eq: "fst (siftDown_func lessFn data root hi first) = ?xs"
        using \<open>\<not> hi \<le> 2 * root + 1\<close>
        by (subst siftDown_func_unfold) (simp add: Let_def c0_def child_def)
      have rc: "k child < k root"
        using nl l kneq [of root child] child c0 by auto
      have "is_heap key ?xs first lo hi"
        unfolding is_heap_def
      proof (intro allI impI)
        fix p c
        assume h: "lo \<le> p \<and> c < hi \<and> (c = 2 * p + 1 \<or> c = 2 * p + 2)"
        show "key (?xs ! (first + c)) < key (?xs ! (first + p))"
        proof (cases "p = root")
          case True
          then have cc: "c = c0 \<or> c = c0 + 1" using h by (auto simp: c0_def)
          have "k c < k root"
          proof (cases "c = child")
            case True
            then show ?thesis using rc by simp
          next
            case False
            then have "k c < k child" using other [of c] h cc by blast
            then show ?thesis using rc by linarith
          qed
          then show ?thesis using True by (simp add: k_def)
        next
          case False
          then show ?thesis using H1 [of p c] h unfolding k_def by blast
        qed
      qed
      then show ?thesis unfolding eq by (simp add: permuted_in_refl)
    next
      case yl: True
      then have rc: "k root < k child" using l by simp
      let ?d = "Swap (snd ?l) (first + root) (first + child)"
      define ys where "ys = ?xs[first + root := ?xs ! (first + child),
          first + child := ?xs ! (first + root)]"
      have ys: "fst ?d = ys" by (simp add: ys_def)
      have eq: "siftDown_func lessFn data root hi first = siftDown_func lessFn ?d child hi first"
        using \<open>\<not> hi \<le> 2 * root + 1\<close> yl
        by (subst siftDown_func_unfold) (simp add: Let_def c0_def child_def)
      have perm: "permuted_in first (first + hi) ?xs ys"
        unfolding ys_def using child c0 "1.prems"(2)
        by (intro permuted_in_swap) linarith+
      define k' where "k' = (\<lambda>i. key (ys ! (first + i)))"
      have k': "\<And>i. i < hi \<Longrightarrow>
          k' i = (if i = child then k root else if i = root then k child else k i)"
        using child c0 "1.prems"(2) by (auto simp: k'_def k_def ys_def nth_list_update)
      have he: "heap_except key ys first lo hi child"
        unfolding heap_except_def
      proof (intro conjI allI impI)
        fix p c
        assume h: "lo \<le> p \<and> p \<noteq> child \<and> c < hi \<and> (c = 2 * p + 1 \<or> c = 2 * p + 2)"
        then have pc: "p < hi" "p < c" "c < hi" by linarith+
        have "k' c < k' p"
        proof (cases "p = root")
          case True
          then have cc: "c = c0 \<or> c = c0 + 1" using h by (auto simp: c0_def)
          show ?thesis
          proof (cases "c = child")
            case True
            then show ?thesis using rc \<open>p = root\<close> pc child by (simp add: k')
          next
            case False
            then have "k c < k child" using other [of c] h cc by blast
            then show ?thesis using \<open>p = root\<close> False pc child by (simp add: k')
          qed
        next
          case False
          have cnc: "c \<noteq> child" using h False child by (auto simp: c0_def)
          show ?thesis
          proof (cases "c = root")
            case True
            have "k child < k p"
              using H2 [of p child] h True child by (auto simp: c0_def)
            then show ?thesis using True False h pc child by (simp add: k')
          next
            case cr: False
            have "k c < k p" using H1 [of p c] h False by blast
            then show ?thesis using cr cnc False h pc by (simp add: k')
          qed
        qed
        then show "key (ys ! (first + c)) < key (ys ! (first + p))" by (simp add: k'_def)
      next
        fix p c
        assume h: "lo \<le> p \<and> (child = 2 * p + 1 \<or> child = 2 * p + 2) \<and> c < hi \<and>
            (c = 2 * child + 1 \<or> c = 2 * child + 2)"
        then have p: "p = root" using child by (auto simp: c0_def)
        have "k c < k child"
          using H1 [of child c] h child "1.prems"(3) by auto
        moreover have "c \<noteq> child" "c \<noteq> root" using h child by linarith+
        ultimately have "k' c < k' p"
          using p h child c0 by (simp add: k')
        then show "key (ys ! (first + c)) < key (ys ! (first + p))" by (simp add: k'_def)
      qed
      have IH: "permuted_in first (first + hi) ys (fst (siftDown_func lessFn ?d child hi first)) \<and>
          is_heap key (fst (siftDown_func lessFn ?d child hi first)) first lo hi"
      proof (rule "1.IH" [OF refl, of "fst ?c" "snd ?c" "fst ?l" "snd ?l",
            unfolded child_def [symmetric] ys])
        show "\<not> hi \<le> 2 * root + 1" by (rule False)
        show "(child, snd ?c) = siftDown_child lessFn data (2 * root + 1) hi first"
          by (simp add: child_def c0_def)
        show "(fst ?l, snd ?l) = ?l" by simp
        show "\<not> \<not> fst ?l" using yl by simp
        show "sortable lessFn key ys" using perm "1.prems"(1) by (rule sortable_permuted)
        show "first + hi \<le> length ys" using "1.prems"(2) by (simp add: ys_def)
        show "lo \<le> child" using "1.prems"(3) child by linarith
        show "heap_except key ys first lo hi child" by (rule he)
      qed
      show ?thesis
        unfolding eq using IH perm permuted_in_trans by blast
    qed
  qed
qed


lemma is_heap_heap_except:
  assumes "is_heap key xs first (Suc i) hi"
  shows "heap_except key xs first i hi i"
  unfolding heap_except_def
proof (intro conjI allI impI)
  fix p c
  assume "i \<le> p \<and> p \<noteq> i \<and> c < hi \<and> (c = 2 * p + 1 \<or> c = 2 * p + 2)"
  then have "Suc i \<le> p \<and> c < hi \<and> (c = 2 * p + 1 \<or> c = 2 * p + 2)" by linarith
  then show "key (xs ! (first + c)) < key (xs ! (first + p))"
    using assms unfolding is_heap_def by blast
next
  fix p c
  assume "i \<le> p \<and> (i = 2 * p + 1 \<or> i = 2 * p + 2) \<and> c < hi \<and> (c = 2 * i + 1 \<or> c = 2 * i + 2)"
  then have False by linarith
  then show "key (xs ! (first + c)) < key (xs ! (first + p))" ..
qed

lemma heapSort_build_heap:
  assumes "sortable lessFn key (fst data)" and "first + hi \<le> length (fst data)"
    and "is_heap key (fst data) first (Suc i) hi"
  shows "permuted_in first (first + hi) (fst data) (fst (heapSort_build lessFn data i hi first)) \<and>
         is_heap key (fst (heapSort_build lessFn data i hi first)) first 0 hi"
  using assms
proof (induction i arbitrary: data)
  case 0
  show ?case
    using siftDown_func_heap [OF "0.prems"(1,2) le_refl is_heap_heap_except [OF "0.prems"(3)]]
    by simp
next
  case (Suc i)
  let ?d = "siftDown_func lessFn data (Suc i) hi first"
  have sd: "permuted_in first (first + hi) (fst data) (fst ?d) \<and>
      is_heap key (fst ?d) first (Suc i) hi"
    by (rule siftDown_func_heap [OF Suc.prems(1,2) le_refl is_heap_heap_except [OF Suc.prems(3)]])
  have "permuted_in first (first + hi) (fst ?d) (fst (heapSort_build lessFn ?d i hi first)) \<and>
      is_heap key (fst (heapSort_build lessFn ?d i hi first)) first 0 hi"
  proof (rule Suc.IH)
    show "sortable lessFn key (fst ?d)" using sd Suc.prems(1) sortable_permuted by blast
    show "first + hi \<le> length (fst ?d)" using sd Suc.prems(2) by (auto dest: permuted_in_length)
    show "is_heap key (fst ?d) first (Suc i) hi" using sd by simp
  qed
  then show ?case
    using sd permuted_in_trans by (simp, blast)
qed

lemma is_heap_root_max:
  assumes "is_heap key xs first 0 n"
  shows "c < n \<Longrightarrow> c \<noteq> 0 \<Longrightarrow> key (xs ! (first + c)) < key (xs ! first)"
proof (induction c rule: less_induct)
  case (less c)
  define p where "p = (c - 1) div 2"
  have pc: "c = 2 * p + 1 \<or> c = 2 * p + 2" "p < c"
    using less.prems(2) unfolding p_def by presburger+
  have step: "key (xs ! (first + c)) < key (xs ! (first + p))"
    using assms pc less.prems(1) unfolding is_heap_def by blast
  show ?case
  proof (cases "p = 0")
    case True
    then show ?thesis using step by simp
  next
    case False
    have "key (xs ! (first + p)) < key (xs ! first)"
      using less.IH [of p] pc less.prems(1) False by linarith
    then show ?thesis using step by linarith
  qed
qed

lemma swap_same [simp]: "xs[i := xs ! i, i := xs ! i] = xs"
  by simp

lemma siftDown_func_empty: "siftDown_func lessFn data 0 0 first = data"
  by (subst siftDown_func_unfold) simp

lemma heapSort_pop_sorts:
  assumes "sortable lessFn key (fst data)" and "first + n \<le> length (fst data)" and "i < n"
    and "is_heap key (fst data) first 0 (Suc i)"
    and "sorted_in key (fst data) (first + Suc i) (first + n)"
    and "\<forall>j k. j \<le> i \<and> i < k \<and> k < n \<longrightarrow>
           key (fst data ! (first + j)) < key (fst data ! (first + k))"
  shows "permuted_in first (first + n) (fst data) (fst (heapSort_pop lessFn data i first)) \<and>
         sorted_in key (fst (heapSort_pop lessFn data i first)) first (first + n)"
  using assms
proof (induction i arbitrary: data)
  case 0
  let ?xs = "fst data"
  have eq: "fst (heapSort_pop lessFn data 0 first) = ?xs"
    by (simp add: siftDown_func_empty)
  have "sorted_in key ?xs first (first + n)"
    unfolding sorted_in_def
  proof (intro allI impI)
    fix i j
    assume h: "first \<le> i \<and> i < j \<and> j < first + n"
    show "key (?xs ! i) < key (?xs ! j)"
    proof (cases "i = first")
      case True
      have "key (?xs ! (first + 0)) < key (?xs ! (first + (j - first)))"
        using "0.prems"(6) h True by (intro "0.prems"(6) [rule_format]) linarith
      then show ?thesis using True h by simp
    next
      case False
      then show ?thesis
        using "0.prems"(5) h unfolding sorted_in_def by (simp add: Suc_leI)
    qed
  qed
  then show ?case unfolding eq by (simp add: permuted_in_refl)
next
  case (Suc i)
  let ?xs = "fst data"
  define k where "k = (\<lambda>j. key (?xs ! (first + j)))"
  let ?d1 = "Swap data first (first + Suc i)"
  define zs where "zs = ?xs[first := ?xs ! (first + Suc i), first + Suc i := ?xs ! first]"
  have zs: "fst ?d1 = zs" by (simp add: zs_def)
  have len: "first + Suc i < length ?xs" using Suc.prems(2,3) by linarith
  have perm1: "permuted_in first (first + n) ?xs zs"
    unfolding zs_def using Suc.prems(2,3) by (intro permuted_in_swap) linarith+
  have nth_zs: "\<And>j. j < n \<Longrightarrow> zs ! (first + j) =
      (if j = Suc i then ?xs ! first else if j = 0 then ?xs ! (first + Suc i)
       else ?xs ! (first + j))"
    using len Suc.prems(2) by (auto simp: zs_def nth_list_update)
  have srt1: "sortable lessFn key zs" using perm1 Suc.prems(1) by (rule sortable_permuted)
  have heapx: "\<And>p c. c < Suc (Suc i) \<Longrightarrow> c = 2 * p + 1 \<or> c = 2 * p + 2 \<Longrightarrow> k c < k p"
    using Suc.prems(4) unfolding is_heap_def k_def by blast
  have maxx: "\<And>c. c < Suc (Suc i) \<Longrightarrow> c \<noteq> 0 \<Longrightarrow> k c < k 0"
    using is_heap_root_max [OF Suc.prems(4)] unfolding k_def by simp
  have abovex: "\<And>j m. j \<le> Suc i \<Longrightarrow> Suc i < m \<Longrightarrow> m < n \<Longrightarrow> k j < k m"
    using Suc.prems(6) unfolding k_def by blast
  have he: "heap_except key zs first 0 (Suc i) 0"
    unfolding heap_except_def
  proof (intro conjI allI impI)
    fix p c
    assume h: "0 \<le> p \<and> p \<noteq> 0 \<and> c < Suc i \<and> (c = 2 * p + 1 \<or> c = 2 * p + 2)"
    then have "k c < k p" using heapx [of c p] by linarith
    moreover have "zs ! (first + c) = ?xs ! (first + c)" "zs ! (first + p) = ?xs ! (first + p)"
      using h nth_zs [of c] nth_zs [of p] Suc.prems(3) by auto
    ultimately show "key (zs ! (first + c)) < key (zs ! (first + p))" by (simp add: k_def)
  next
    fix p c :: nat
    assume "0 \<le> p \<and> (0 = 2 * p + 1 \<or> 0 = 2 * p + 2) \<and> c < Suc i \<and>
        (c = 2 * 0 + 1 \<or> c = 2 * 0 + 2)"
    then have False by linarith
    then show "key (zs ! (first + c)) < key (zs ! (first + p))" ..
  qed
  let ?d2 = "siftDown_func lessFn ?d1 0 (Suc i) first"
  define ws where "ws = fst ?d2"
  have sd: "permuted_in first (first + Suc i) zs ws \<and> is_heap key ws first 0 (Suc i)"
    unfolding ws_def
  proof (rule siftDown_func_heap [of lessFn key ?d1 first "Suc i" 0 0, unfolded zs])
    show "sortable lessFn key zs" by (rule srt1)
    show "first + Suc i \<le> length zs" using len by (simp add: zs_def)
    show "(0::nat) \<le> 0" by simp
    show "heap_except key zs first 0 (Suc i) 0" by (rule he)
  qed
  then have perm2: "permuted_in first (first + n) zs ws"
    using Suc.prems(3) by (auto intro: permuted_in_widen)
  have lenz: "length zs = length ?xs" by (simp add: zs_def)
  have ws_hi: "\<And>m. Suc i \<le> m \<Longrightarrow> m < n \<Longrightarrow> ws ! (first + m) = zs ! (first + m)"
    using sd Suc.prems(2) lenz by (intro permuted_in_outside [of first "first + Suc i"]) auto
  have ws_lo: "\<And>j. j \<le> i \<Longrightarrow> \<exists>m. 0 < m \<and> m \<le> Suc i \<and> ws ! (first + j) = ?xs ! (first + m)"
  proof -
    fix j assume j: "j \<le> i"
    obtain q where q: "first \<le> q" "q < first + Suc i" "ws ! (first + j) = zs ! q"
      using permuted_in_member [of first "first + Suc i" zs ws "first + j"] sd j len lenz
      by auto
    define m where "m = q - first"
    have qm: "q = first + m" "m \<le> i" using q by (auto simp: m_def)
    show "\<exists>m. 0 < m \<and> m \<le> Suc i \<and> ws ! (first + j) = ?xs ! (first + m)"
    proof (cases "m = 0")
      case True
      then have "zs ! q = ?xs ! (first + Suc i)"
        using nth_zs [of 0] qm Suc.prems(3) by simp
      then show ?thesis using q by (intro exI [of _ "Suc i"]) simp
    next
      case False
      then have "zs ! q = ?xs ! (first + m)"
        using nth_zs [of m] qm Suc.prems(3) by simp
      then show ?thesis using q False qm by (intro exI [of _ m]) simp
    qed
  qed
  have IH: "permuted_in first (first + n) ws (fst (heapSort_pop lessFn ?d2 i first)) \<and>
      sorted_in key (fst (heapSort_pop lessFn ?d2 i first)) first (first + n)"
  proof (rule Suc.IH [of ?d2, unfolded ws_def [symmetric]])
    show "sortable lessFn key ws" using perm2 srt1 by (rule sortable_permuted)
    show "first + n \<le> length ws"
      using perm2 Suc.prems(2) lenz by (simp add: permuted_in_length)
    show "i < n" using Suc.prems(3) by simp
    show "is_heap key ws first 0 (Suc i)" using sd by simp
    show "sorted_in key ws (first + Suc i) (first + n)"
      unfolding sorted_in_def
    proof (intro allI impI)
      fix p q
      assume h: "first + Suc i \<le> p \<and> p < q \<and> q < first + n"
      define p' q' where "p' = p - first" and "q' = q - first"
      have pq: "p = first + p'" "q = first + q'" "Suc i \<le> p'" "p' < q'" "q' < n"
        using h by (auto simp: p'_def q'_def)
      have wq: "ws ! q = ?xs ! q"
        using ws_hi [of q'] nth_zs [of q'] pq by simp
      show "key (ws ! p) < key (ws ! q)"
      proof (cases "p' = Suc i")
        case True
        then have "ws ! p = ?xs ! first"
          using ws_hi [of p'] nth_zs [of p'] pq by simp
        moreover have "k 0 < k q'" using abovex [of 0 q'] pq True by simp
        ultimately show ?thesis using wq pq by (simp add: k_def)
      next
        case False
        then have "ws ! p = ?xs ! p"
          using ws_hi [of p'] nth_zs [of p'] pq by simp
        moreover have "key (?xs ! p) < key (?xs ! q)"
          using Suc.prems(5) h False pq unfolding sorted_in_def by simp
        ultimately show ?thesis using wq by simp
      qed
    qed
    show "\<forall>j m. j \<le> i \<and> i < m \<and> m < n \<longrightarrow> key (ws ! (first + j)) < key (ws ! (first + m))"
    proof (intro allI impI)
      fix j m
      assume h: "j \<le> i \<and> i < m \<and> m < n"
      obtain j' where j': "0 < j'" "j' \<le> Suc i" "ws ! (first + j) = ?xs ! (first + j')"
        using ws_lo [of j] h by blast
      show "key (ws ! (first + j)) < key (ws ! (first + m))"
      proof (cases "m = Suc i")
        case True
        then have "ws ! (first + m) = ?xs ! first"
          using ws_hi [of m] nth_zs [of m] h by simp
        moreover have "k j' < k 0" using maxx [of j'] j' by simp
        ultimately show ?thesis using j' by (simp add: k_def)
      next
        case False
        then have "ws ! (first + m) = ?xs ! (first + m)"
          using ws_hi [of m] nth_zs [of m] h by simp
        moreover have "k j' < k m" using abovex [of j' m] j' h False by simp
        ultimately show ?thesis using j' by (simp add: k_def)
      qed
    qed
  qed
  have eq: "heapSort_pop lessFn data (Suc i) first = heapSort_pop lessFn ?d2 i first"
    by simp
  show ?case
    unfolding eq using IH perm1 perm2 permuted_in_trans by blast
qed

lemma heapSort_func_sorts:
  assumes "sortable lessFn key (fst data)" and "a < b" and "b \<le> length (fst data)"
  shows "permuted_in a b (fst data) (fst (heapSort_func lessFn data a b)) \<and>
         sorted_in key (fst (heapSort_func lessFn data a b)) a b"
proof -
  define hi where "hi = b - a"
  have hi: "a + hi = b" "0 < hi" using assms(2) by (simp_all add: hi_def)
  let ?d = "heapSort_build lessFn data ((hi - 1) div 2) hi a"
  have "is_heap key (fst data) a (Suc ((hi - 1) div 2)) hi"
    unfolding is_heap_def by (intro allI impI) presburger
  then have build: "permuted_in a (a + hi) (fst data) (fst ?d) \<and> is_heap key (fst ?d) a 0 hi"
    using assms(1,3) hi by (intro heapSort_build_heap) simp_all
  have "permuted_in a (a + hi) (fst ?d) (fst (heapSort_pop lessFn ?d (hi - 1) a)) \<and>
      sorted_in key (fst (heapSort_pop lessFn ?d (hi - 1) a)) a (a + hi)"
  proof (rule heapSort_pop_sorts)
    show "sortable lessFn key (fst ?d)" using build assms(1) sortable_permuted by blast
    show "a + hi \<le> length (fst ?d)" using build assms(3) hi by (auto dest: permuted_in_length)
    show "hi - 1 < hi" using hi by simp
    show "is_heap key (fst ?d) a 0 (Suc (hi - 1))" using build hi by simp
    show "sorted_in key (fst ?d) (a + Suc (hi - 1)) (a + hi)"
      using hi by (simp add: sorted_in_def)
    show "\<forall>j k. j \<le> hi - 1 \<and> hi - 1 < k \<and> k < hi \<longrightarrow>
        key (fst ?d ! (a + j)) < key (fst ?d ! (a + k))"
      by (intro allI impI) linarith
  qed
  moreover have "heapSort_func lessFn data a b = heapSort_pop lessFn ?d (hi - 1) a"
    using hi by (simp add: heapSort_func_def Let_def hi_def)
  ultimately show ?thesis
    using build hi permuted_in_trans by (simp, blast)
qed


subsubsection \<open>The pivot\<close>

text \<open>
  After \<open>swap_if_less i j\<close> the element at \<open>i\<close> has the greater key: the two elements
  are at the same two positions, in the order of their keys.
\<close>

lemma swap_if_less_post:
  assumes "sortable lessFn key (fst data)" and "i < length (fst data)"
    and "j < length (fst data)" and "i \<noteq> j"
  shows "\<exists>ys. fst (snd (swap_if_less lessFn data i j)) = ys \<and> length ys = length (fst data) \<and>
           key (ys ! j) < key (ys ! i) \<and>
           (\<forall>m. m \<noteq> i \<and> m \<noteq> j \<longrightarrow> ys ! m = fst data ! m) \<and>
           ((ys ! i = fst data ! i \<and> ys ! j = fst data ! j) \<or>
            (ys ! i = fst data ! j \<and> ys ! j = fst data ! i))"
proof (cases "fst (Less lessFn data i j)")
  case True
  then have "key (fst data ! i) < key (fst data ! j)"
    using sortable_Less [OF assms] by simp
  then show ?thesis
    using True assms(2-4) by (simp add: fst_swap_if_less)
next
  case False
  then have "\<not> key (fst data ! i) < key (fst data ! j)"
    using sortable_Less [OF assms] by simp
  moreover have "key (fst data ! i) \<noteq> key (fst data ! j)"
    by (rule sortable_keys_differ [OF assms])
  ultimately show ?thesis
    using False by (simp add: fst_swap_if_less)
qed

lemma medianOfThree_func_post:
  assumes "sortable lessFn key (fst data)" and "lo \<le> m0" and "lo \<le> m1" and "lo \<le> m2"
    and "m0 < hi" and "m1 < hi" and "m2 < hi" and "hi \<le> length (fst data)"
    and "m0 \<noteq> m1" and "m1 \<noteq> m2" and "m0 \<noteq> m2"
  shows "permuted_in lo hi (fst data) (fst (medianOfThree_func lessFn data m1 m0 m2)) \<and>
         key (fst (medianOfThree_func lessFn data m1 m0 m2) ! m0)
           < key (fst (medianOfThree_func lessFn data m1 m0 m2) ! m1) \<and>
         key (fst (medianOfThree_func lessFn data m1 m0 m2) ! m1)
           < key (fst (medianOfThree_func lessFn data m1 m0 m2) ! m2)"
proof -
  let ?xs = "fst data"
  have len: "m0 < length ?xs" "m1 < length ?xs" "m2 < length ?xs"
    using assms(5-8) by linarith+
  let ?s1 = "swap_if_less lessFn data m1 m0"
  obtain ys where ys: "fst (snd ?s1) = ys" "length ys = length ?xs"
      "key (ys ! m0) < key (ys ! m1)" "ys ! m2 = ?xs ! m2"
    using swap_if_less_post [OF assms(1) len(2) len(1)] assms(9-11) by metis
  have p1: "permuted_in lo hi ?xs ys"
    using swap_if_less_permuted [of lo m1 hi m0 data lessFn] assms(2-8) ys(1) by simp
  have s1: "sortable lessFn key ys" using p1 assms(1) by (rule sortable_permuted)
  let ?s2 = "swap_if_less lessFn (snd ?s1) m2 m1"
  obtain zs where zs: "fst (snd ?s2) = zs" "length zs = length ?xs"
      "key (zs ! m1) < key (zs ! m2)" "zs ! m0 = ys ! m0"
      "(zs ! m2 = ys ! m2 \<and> zs ! m1 = ys ! m1) \<or> (zs ! m2 = ys ! m1 \<and> zs ! m1 = ys ! m2)"
    using swap_if_less_post [of lessFn key "snd ?s1" m2 m1] s1 len assms(9-11) ys(1,2)
    by (metis (no_types, lifting))
  have p2: "permuted_in lo hi ys zs"
    using swap_if_less_permuted [of lo m2 hi m1 "snd ?s1" lessFn] assms(2-8) ys(1,2) zs(1)
    by simp
  have s2: "sortable lessFn key zs" using p2 s1 by (rule sortable_permuted)
  show ?thesis
  proof (cases "fst ?s2")
    case False
    then have eq: "fst (medianOfThree_func lessFn data m1 m0 m2) = zs"
      by (simp add: medianOfThree_func_def case_prod_beta zs(1))
    have "zs ! m1 = ys ! m1"
      using False ys(1) by (simp add: zs(1) [symmetric] swap_if_less_def case_prod_beta
          split: if_splits)
    then show ?thesis
      unfolding eq using zs ys p1 p2 permuted_in_trans by metis
  next
    case True
    let ?s3 = "swap_if_less lessFn (snd ?s2) m1 m0"
    have eq: "fst (medianOfThree_func lessFn data m1 m0 m2) = fst (snd ?s3)"
      using True by (simp add: medianOfThree_func_def case_prod_beta)
    have sw: "zs ! m2 = ys ! m1 \<and> zs ! m1 = ys ! m2"
      using True ys(1,2) len assms(10)
      by (simp add: zs(1) [symmetric] swap_if_less_def case_prod_beta split: if_splits)
    obtain ws where ws: "fst (snd ?s3) = ws"
        "key (ws ! m0) < key (ws ! m1)" "ws ! m2 = zs ! m2"
        "(ws ! m1 = zs ! m1 \<and> ws ! m0 = zs ! m0) \<or> (ws ! m1 = zs ! m0 \<and> ws ! m0 = zs ! m1)"
      using swap_if_less_post [of lessFn key "snd ?s2" m1 m0] s2 len assms(9-11) zs(1,2)
      by (metis (no_types, lifting))
    have p3: "permuted_in lo hi zs ws"
      using swap_if_less_permuted [of lo m1 hi m0 "snd ?s2" lessFn] assms(2-8) zs(1,2) ws(1)
      by simp
    have "key (ws ! m1) < key (ws ! m2)"
      using ws(3,4) sw zs(3,4) ys(3) by auto
    then show ?thesis
      unfolding eq ws(1) using ws(2) p1 p2 p3 permuted_in_trans by metis
  qed
qed

text \<open>The scans of \<open>doPivot_func\<close> read the slice and do not change it.\<close>

lemma scan_less_unfold:
  "scan_less lessFn data a c pivot =
     (if a < c \<and> fst (Less lessFn data a pivot)
      then scan_less lessFn (snd (Less lessFn data a pivot)) (a + 1) c pivot
      else if a < c then (a, snd (Less lessFn data a pivot)) else (a, data))"
  by (subst scan_less.simps) (simp add: case_prod_beta)

lemma scan_not_less_unfold:
  "scan_not_less lessFn data b c pivot =
     (if b < c \<and> \<not> fst (Less lessFn data pivot b)
      then scan_not_less lessFn (snd (Less lessFn data pivot b)) (b + 1) c pivot
      else if b < c then (b, snd (Less lessFn data pivot b)) else (b, data))"
  by (subst scan_not_less.simps) (simp add: case_prod_beta)

lemma scan_down_unfold:
  "scan_down lessFn data b c pivot =
     (if b < c \<and> fst (Less lessFn data pivot (c - 1))
      then scan_down lessFn (snd (Less lessFn data pivot (c - 1))) b (c - 1) pivot
      else if b < c then (c, snd (Less lessFn data pivot (c - 1))) else (c, data))"
  by (subst scan_down.simps) (simp add: case_prod_beta)

lemma scan_down_not_less_unfold:
  "scan_down_not_less lessFn data a b pivot =
     (if a < b \<and> \<not> fst (Less lessFn data (b - 1) pivot)
      then scan_down_not_less lessFn (snd (Less lessFn data (b - 1) pivot)) a (b - 1) pivot
      else if a < b then (b, snd (Less lessFn data (b - 1) pivot)) else (b, data))"
  by (subst scan_down_not_less.simps) (simp add: case_prod_beta)

lemma scan_less_post:
  assumes "sortable lessFn key (fst data)" and "pivot < a" and "c \<le> length (fst data)"
  shows "fst (snd (scan_less lessFn data a c pivot)) = fst data \<and>
         a \<le> fst (scan_less lessFn data a c pivot) \<and>
         (a \<le> c \<longrightarrow> fst (scan_less lessFn data a c pivot) \<le> c) \<and>
         (\<forall>i. a \<le> i \<and> i < fst (scan_less lessFn data a c pivot) \<longrightarrow>
            key (fst data ! i) < key (fst data ! pivot)) \<and>
         (fst (scan_less lessFn data a c pivot) < c \<longrightarrow>
            key (fst data ! pivot) < key (fst data ! fst (scan_less lessFn data a c pivot)))"
  using assms
proof (induction lessFn data a c pivot rule: scan_less.induct)
  case (1 lessFn data a c pivot)
  let ?xs = "fst data"
  let ?L = "Less lessFn data a pivot"
  show ?case
  proof (cases "a < c")
    case False
    then have eq: "scan_less lessFn data a c pivot = (a, data)"
      by (subst scan_less_unfold) simp
    show ?thesis unfolding eq using False by simp
  next
    case True
    have L: "fst ?L = (key (?xs ! a) < key (?xs ! pivot))"
      using True "1.prems" by (intro sortable_Less) simp_all
    have ne: "key (?xs ! a) \<noteq> key (?xs ! pivot)"
      using True "1.prems" by (intro sortable_keys_differ [of lessFn]) simp_all
    show ?thesis
    proof (cases "fst ?L")
      case False
      then have eq: "scan_less lessFn data a c pivot = (a, snd ?L)"
        using True by (subst scan_less_unfold) simp
      show ?thesis unfolding eq using False L ne True by simp
    next
      case yes: True
      have eq: "scan_less lessFn data a c pivot = scan_less lessFn (snd ?L) (a + 1) c pivot"
        using True yes by (subst scan_less_unfold) simp
      define r where "r = fst (scan_less lessFn (snd ?L) (a + 1) c pivot)"
      have IH: "fst (snd (scan_less lessFn (snd ?L) (a + 1) c pivot)) = ?xs \<and>
         a + 1 \<le> r \<and> (a + 1 \<le> c \<longrightarrow> r \<le> c) \<and>
         (\<forall>i. a + 1 \<le> i \<and> i < r \<longrightarrow> key (?xs ! i) < key (?xs ! pivot)) \<and>
         (r < c \<longrightarrow> key (?xs ! pivot) < key (?xs ! r))"
        unfolding r_def using "1.IH" [OF True prod.collapse yes] "1.prems" by simp
      have all: "\<forall>i. a \<le> i \<and> i < r \<longrightarrow> key (?xs ! i) < key (?xs ! pivot)"
      proof (intro allI impI)
        fix i assume h: "a \<le> i \<and> i < r"
        show "key (?xs ! i) < key (?xs ! pivot)"
        proof (cases "i = a")
          case True
          then show ?thesis using yes L by simp
        next
          case False
          then have "a + 1 \<le> i \<and> i < r" using h by linarith
          then show ?thesis using IH by blast
        qed
      qed
      have "a \<le> r" "a \<le> c \<longrightarrow> r \<le> c" using IH True by linarith+
      then show ?thesis
        unfolding eq r_def [symmetric] using IH all by blast
    qed
  qed
qed


lemma scan_not_less_post:
  assumes "sortable lessFn key (fst data)" and "pivot < b" and "c \<le> length (fst data)"
  shows "fst (snd (scan_not_less lessFn data b c pivot)) = fst data \<and>
         b \<le> fst (scan_not_less lessFn data b c pivot) \<and>
         (b \<le> c \<longrightarrow> fst (scan_not_less lessFn data b c pivot) \<le> c) \<and>
         (\<forall>i. b \<le> i \<and> i < fst (scan_not_less lessFn data b c pivot) \<longrightarrow>
            key (fst data ! i) < key (fst data ! pivot)) \<and>
         (fst (scan_not_less lessFn data b c pivot) < c \<longrightarrow>
            key (fst data ! pivot) < key (fst data ! fst (scan_not_less lessFn data b c pivot)))"
  using assms
proof (induction lessFn data b c pivot rule: scan_not_less.induct)
  case (1 lessFn data b c pivot)
  let ?xs = "fst data"
  let ?L = "Less lessFn data pivot b"
  show ?case
  proof (cases "b < c")
    case False
    then have eq: "scan_not_less lessFn data b c pivot = (b, data)"
      by (subst scan_not_less_unfold) simp
    show ?thesis unfolding eq using False by simp
  next
    case True
    have L: "fst ?L = (key (?xs ! pivot) < key (?xs ! b))"
      using True "1.prems" by (intro sortable_Less) simp_all
    have ne: "key (?xs ! pivot) \<noteq> key (?xs ! b)"
      using True "1.prems" by (intro sortable_keys_differ [of lessFn]) simp_all
    show ?thesis
    proof (cases "fst ?L")
      case yes: True
      then have eq: "scan_not_less lessFn data b c pivot = (b, snd ?L)"
        using True by (subst scan_not_less_unfold) simp
      show ?thesis unfolding eq using yes L True by simp
    next
      case no: False
      have eq: "scan_not_less lessFn data b c pivot =
          scan_not_less lessFn (snd ?L) (b + 1) c pivot"
        using True no by (subst scan_not_less_unfold) simp
      define r where "r = fst (scan_not_less lessFn (snd ?L) (b + 1) c pivot)"
      have IH: "fst (snd (scan_not_less lessFn (snd ?L) (b + 1) c pivot)) = ?xs \<and>
         b + 1 \<le> r \<and> (b + 1 \<le> c \<longrightarrow> r \<le> c) \<and>
         (\<forall>i. b + 1 \<le> i \<and> i < r \<longrightarrow> key (?xs ! i) < key (?xs ! pivot)) \<and>
         (r < c \<longrightarrow> key (?xs ! pivot) < key (?xs ! r))"
        unfolding r_def using "1.IH" [OF True prod.collapse no] "1.prems" by simp
      have all: "\<forall>i. b \<le> i \<and> i < r \<longrightarrow> key (?xs ! i) < key (?xs ! pivot)"
      proof (intro allI impI)
        fix i assume h: "b \<le> i \<and> i < r"
        show "key (?xs ! i) < key (?xs ! pivot)"
        proof (cases "i = b")
          case True
          then show ?thesis using no L ne by simp
        next
          case False
          then have "b + 1 \<le> i \<and> i < r" using h by linarith
          then show ?thesis using IH by blast
        qed
      qed
      have "b \<le> r" "b \<le> c \<longrightarrow> r \<le> c" using IH True by linarith+
      then show ?thesis
        unfolding eq r_def [symmetric] using IH all by blast
    qed
  qed
qed

lemma scan_down_post:
  assumes "sortable lessFn key (fst data)" and "pivot < b" and "c \<le> length (fst data)"
  shows "fst (snd (scan_down lessFn data b c pivot)) = fst data \<and>
         fst (scan_down lessFn data b c pivot) \<le> c \<and>
         (b \<le> c \<longrightarrow> b \<le> fst (scan_down lessFn data b c pivot)) \<and>
         (\<forall>i. fst (scan_down lessFn data b c pivot) \<le> i \<and> i < c \<longrightarrow>
            key (fst data ! pivot) < key (fst data ! i)) \<and>
         (b < fst (scan_down lessFn data b c pivot) \<longrightarrow>
            key (fst data ! (fst (scan_down lessFn data b c pivot) - 1))
              < key (fst data ! pivot))"
  using assms
proof (induction lessFn data b c pivot rule: scan_down.induct)
  case (1 lessFn data b c pivot)
  let ?xs = "fst data"
  let ?L = "Less lessFn data pivot (c - 1)"
  show ?case
  proof (cases "b < c")
    case False
    then have eq: "scan_down lessFn data b c pivot = (c, data)"
      by (subst scan_down_unfold) simp
    show ?thesis unfolding eq using False by simp
  next
    case True
    have L: "fst ?L = (key (?xs ! pivot) < key (?xs ! (c - 1)))"
      using True "1.prems" by (intro sortable_Less) linarith+
    have ne: "key (?xs ! pivot) \<noteq> key (?xs ! (c - 1))"
      using True "1.prems" by (intro sortable_keys_differ [of lessFn]) linarith+
    show ?thesis
    proof (cases "fst ?L")
      case no: False
      then have eq: "scan_down lessFn data b c pivot = (c, snd ?L)"
        using True by (subst scan_down_unfold) simp
      show ?thesis unfolding eq using no L ne True by simp
    next
      case yes: True
      have eq: "scan_down lessFn data b c pivot = scan_down lessFn (snd ?L) b (c - 1) pivot"
        using True yes by (subst scan_down_unfold) simp
      define r where "r = fst (scan_down lessFn (snd ?L) b (c - 1) pivot)"
      have IH: "fst (snd (scan_down lessFn (snd ?L) b (c - 1) pivot)) = ?xs \<and>
         r \<le> c - 1 \<and> (b \<le> c - 1 \<longrightarrow> b \<le> r) \<and>
         (\<forall>i. r \<le> i \<and> i < c - 1 \<longrightarrow> key (?xs ! pivot) < key (?xs ! i)) \<and>
         (b < r \<longrightarrow> key (?xs ! (r - 1)) < key (?xs ! pivot))"
        unfolding r_def using "1.IH" [OF True prod.collapse yes] "1.prems" by simp
      have all: "\<forall>i. r \<le> i \<and> i < c \<longrightarrow> key (?xs ! pivot) < key (?xs ! i)"
      proof (intro allI impI)
        fix i assume h: "r \<le> i \<and> i < c"
        show "key (?xs ! pivot) < key (?xs ! i)"
        proof (cases "i = c - 1")
          case True
          then show ?thesis using yes L by simp
        next
          case False
          then have "r \<le> i \<and> i < c - 1" using h by linarith
          then show ?thesis using IH by blast
        qed
      qed
      have "r \<le> c" "b \<le> c \<longrightarrow> b \<le> r" using IH True by linarith+
      then show ?thesis
        unfolding eq r_def [symmetric] using IH all by blast
    qed
  qed
qed

lemma scan_down_not_less_post:
  assumes "sortable lessFn key (fst data)" and "pivot < a" and "b \<le> length (fst data)"
  shows "fst (snd (scan_down_not_less lessFn data a b pivot)) = fst data \<and>
         fst (scan_down_not_less lessFn data a b pivot) \<le> b \<and>
         (a \<le> b \<longrightarrow> a \<le> fst (scan_down_not_less lessFn data a b pivot)) \<and>
         (\<forall>i. fst (scan_down_not_less lessFn data a b pivot) \<le> i \<and> i < b \<longrightarrow>
            key (fst data ! pivot) < key (fst data ! i)) \<and>
         (a < fst (scan_down_not_less lessFn data a b pivot) \<longrightarrow>
            key (fst data ! (fst (scan_down_not_less lessFn data a b pivot) - 1))
              < key (fst data ! pivot))"
  using assms
proof (induction lessFn data a b pivot rule: scan_down_not_less.induct)
  case (1 lessFn data a b pivot)
  let ?xs = "fst data"
  let ?L = "Less lessFn data (b - 1) pivot"
  show ?case
  proof (cases "a < b")
    case False
    then have eq: "scan_down_not_less lessFn data a b pivot = (b, data)"
      by (subst scan_down_not_less_unfold) simp
    show ?thesis unfolding eq using False by simp
  next
    case True
    have L: "fst ?L = (key (?xs ! (b - 1)) < key (?xs ! pivot))"
      using True "1.prems" by (intro sortable_Less) linarith+
    have ne: "key (?xs ! (b - 1)) \<noteq> key (?xs ! pivot)"
      using True "1.prems" by (intro sortable_keys_differ [of lessFn]) linarith+
    show ?thesis
    proof (cases "fst ?L")
      case yes: True
      then have eq: "scan_down_not_less lessFn data a b pivot = (b, snd ?L)"
        using True by (subst scan_down_not_less_unfold) simp
      show ?thesis unfolding eq using yes L True by simp
    next
      case no: False
      have eq: "scan_down_not_less lessFn data a b pivot =
          scan_down_not_less lessFn (snd ?L) a (b - 1) pivot"
        using True no by (subst scan_down_not_less_unfold) simp
      define r where "r = fst (scan_down_not_less lessFn (snd ?L) a (b - 1) pivot)"
      have IH: "fst (snd (scan_down_not_less lessFn (snd ?L) a (b - 1) pivot)) = ?xs \<and>
         r \<le> b - 1 \<and> (a \<le> b - 1 \<longrightarrow> a \<le> r) \<and>
         (\<forall>i. r \<le> i \<and> i < b - 1 \<longrightarrow> key (?xs ! pivot) < key (?xs ! i)) \<and>
         (a < r \<longrightarrow> key (?xs ! (r - 1)) < key (?xs ! pivot))"
        unfolding r_def using "1.IH" [OF True prod.collapse no] "1.prems" by simp
      have all: "\<forall>i. r \<le> i \<and> i < b \<longrightarrow> key (?xs ! pivot) < key (?xs ! i)"
      proof (intro allI impI)
        fix i assume h: "r \<le> i \<and> i < b"
        show "key (?xs ! pivot) < key (?xs ! i)"
        proof (cases "i = b - 1")
          case True
          then show ?thesis using no L ne by simp
        next
          case False
          then have "r \<le> i \<and> i < b - 1" using h by linarith
          then show ?thesis using IH by blast
        qed
      qed
      have "r \<le> b" "a \<le> b \<longrightarrow> a \<le> r" using IH True by linarith+
      then show ?thesis
        unfolding eq r_def [symmetric] using IH all by blast
    qed
  qed
qed


lemma partition_loop_unfold:
  "partition_loop lessFn data b c pivot =
     (let s1 = scan_not_less lessFn data b c pivot;
          s2 = scan_down lessFn (snd s1) (fst s1) c pivot
      in if fst s1 \<ge> fst s2 then (fst s1, fst s2, snd s2)
         else partition_loop lessFn (Swap (snd s2) (fst s1) (fst s2 - 1)) (fst s1 + 1)
                (fst s2 - 1) pivot)"
  by (subst partition_loop.simps) (simp add: case_prod_beta Let_def)

text \<open>
  The main loop of \<open>doPivot_func\<close> keeps the elements below the pivot on the left of \<open>b\<close>
  and the elements above it from \<open>c\<close> on, and ends with \<open>b = c\<close>.
\<close>

lemma partition_loop_post:
  assumes "sortable lessFn key (fst data)" and "pivot < b" and "b \<le> c" and "c \<le> hi1"
    and "hi1 \<le> length (fst data)"
    and "\<forall>i. pivot < i \<and> i < b \<longrightarrow> key (fst data ! i) < key (fst data ! pivot)"
    and "\<forall>i. c \<le> i \<and> i < hi1 \<longrightarrow> key (fst data ! pivot) < key (fst data ! i)"
  shows "\<exists>m ys. partition_loop lessFn data b c pivot = (m, m, snd (snd (partition_loop lessFn data b c pivot))) \<and>
           fst (snd (snd (partition_loop lessFn data b c pivot))) = ys \<and>
           b \<le> m \<and> m \<le> c \<and> permuted_in b c (fst data) ys \<and>
           (\<forall>i. pivot < i \<and> i < m \<longrightarrow> key (ys ! i) < key (ys ! pivot)) \<and>
           (\<forall>i. m \<le> i \<and> i < hi1 \<longrightarrow> key (ys ! pivot) < key (ys ! i))"
  using assms
proof (induction lessFn data b c pivot rule: partition_loop.induct)
  case (1 lessFn data b c pivot)
  let ?xs = "fst data"
  let ?s1 = "scan_not_less lessFn data b c pivot"
  define b1 where "b1 = fst ?s1"
  let ?s2 = "scan_down lessFn (snd ?s1) b1 c pivot"
  define c1 where "c1 = fst ?s2"
  have clen: "c \<le> length ?xs" using "1.prems"(4,5) by linarith
  have S1: "fst (snd ?s1) = ?xs" "b \<le> b1" "b1 \<le> c"
      "\<forall>i. b \<le> i \<and> i < b1 \<longrightarrow> key (?xs ! i) < key (?xs ! pivot)"
      "b1 < c \<longrightarrow> key (?xs ! pivot) < key (?xs ! b1)"
    using scan_not_less_post [OF "1.prems"(1,2) clen] "1.prems"(3) unfolding b1_def by simp_all
  have pb1: "pivot < b1" using S1(2) "1.prems"(2) by linarith
  have S2: "fst (snd ?s2) = ?xs" "c1 \<le> c" "b1 \<le> c1"
      "\<forall>i. c1 \<le> i \<and> i < c \<longrightarrow> key (?xs ! pivot) < key (?xs ! i)"
      "b1 < c1 \<longrightarrow> key (?xs ! (c1 - 1)) < key (?xs ! pivot)"
    using scan_down_post [of lessFn key "snd ?s1" pivot b1 c] "1.prems"(1) pb1 clen S1(1,3)
    unfolding c1_def by simp_all
  have L: "\<forall>i. pivot < i \<and> i < b1 \<longrightarrow> key (?xs ! i) < key (?xs ! pivot)"
  proof (intro allI impI)
    fix i assume h: "pivot < i \<and> i < b1"
    show "key (?xs ! i) < key (?xs ! pivot)"
    proof (cases "i < b")
      case True
      then show ?thesis using "1.prems"(6) h by blast
    next
      case False
      then have "b \<le> i \<and> i < b1" using h by linarith
      then show ?thesis using S1(4) by blast
    qed
  qed
  have R: "\<forall>i. c1 \<le> i \<and> i < hi1 \<longrightarrow> key (?xs ! pivot) < key (?xs ! i)"
  proof (intro allI impI)
    fix i assume h: "c1 \<le> i \<and> i < hi1"
    show "key (?xs ! pivot) < key (?xs ! i)"
    proof (cases "i < c")
      case True
      then show ?thesis using S2(4) h by blast
    next
      case False
      then have "c \<le> i \<and> i < hi1" using h by linarith
      then show ?thesis using "1.prems"(7) by blast
    qed
  qed
  show ?case
  proof (cases "b1 \<ge> c1")
    case True
    then have m: "b1 = c1" using S2(3) by linarith
    have eq: "partition_loop lessFn data b c pivot = (c1, c1, snd ?s2)"
      using True m by (subst partition_loop_unfold) (simp add: Let_def b1_def c1_def)
    show ?thesis
      unfolding eq using S2(1,2) S1(2) L R m by (auto simp: permuted_in_refl)
  next
    case False
    then have lt: "b1 < c1" by linarith
    then have kb: "key (?xs ! pivot) < key (?xs ! b1)" and kc: "key (?xs ! (c1 - 1)) < key (?xs ! pivot)"
      using S1(5) S2(2,5) by simp_all
    then have "b1 \<noteq> c1 - 1" by auto
    then have gap: "b1 + 1 \<le> c1 - 1" using lt by linarith
    let ?d = "Swap (snd ?s2) b1 (c1 - 1)"
    define ys where "ys = ?xs[b1 := ?xs ! (c1 - 1), c1 - 1 := ?xs ! b1]"
    have ys: "fst ?d = ys" by (simp add: ys_def S2(1))
    have eq: "partition_loop lessFn data b c pivot =
        partition_loop lessFn ?d (b1 + 1) (c1 - 1) pivot"
      using False by (subst partition_loop_unfold) (simp add: Let_def b1_def c1_def)
    have perm: "permuted_in b c ?xs ys"
      unfolding ys_def using S1(2) S2(2) lt clen by (intro permuted_in_swap) linarith+
    have leny: "length ys = length ?xs" by (simp add: ys_def)
    have nth_ys: "\<And>i. i < length ?xs \<Longrightarrow>
        ys ! i = (if i = c1 - 1 then ?xs ! b1 else if i = b1 then ?xs ! (c1 - 1) else ?xs ! i)"
      using lt S2(2) clen by (simp add: ys_def nth_list_update)
    have "pivot \<noteq> c1 - 1" "pivot \<noteq> b1" "pivot < length ?xs"
      using pb1 lt clen S2(2) by linarith+
    then have yp: "ys ! pivot = ?xs ! pivot"
      using nth_ys [of pivot] by simp
    have L': "\<forall>i. pivot < i \<and> i < b1 + 1 \<longrightarrow> key (ys ! i) < key (ys ! pivot)"
    proof (intro allI impI)
      fix i assume h: "pivot < i \<and> i < b1 + 1"
      have il: "i < length ?xs" using h lt S2(2) clen by linarith
      show "key (ys ! i) < key (ys ! pivot)"
      proof (cases "i = b1")
        case True
        then show ?thesis using nth_ys [OF il] kc yp gap by simp
      next
        case False
        then have "pivot < i \<and> i < b1" using h by linarith
        then have "key (?xs ! i) < key (?xs ! pivot)" using L by blast
        moreover have "ys ! i = ?xs ! i" using nth_ys [OF il] False h gap by simp
        ultimately show ?thesis using yp by simp
      qed
    qed
    have R': "\<forall>i. c1 - 1 \<le> i \<and> i < hi1 \<longrightarrow> key (ys ! pivot) < key (ys ! i)"
    proof (intro allI impI)
      fix i assume h: "c1 - 1 \<le> i \<and> i < hi1"
      have il: "i < length ?xs" using h "1.prems"(5) by linarith
      show "key (ys ! pivot) < key (ys ! i)"
      proof (cases "i = c1 - 1")
        case True
        then show ?thesis using nth_ys [OF il] kb yp by simp
      next
        case False
        then have "c1 \<le> i \<and> i < hi1" using h by linarith
        then have "key (?xs ! pivot) < key (?xs ! i)" using R by blast
        moreover have "ys ! i = ?xs ! i" using nth_ys [OF il] False h gap by simp
        ultimately show ?thesis using yp by simp
      qed
    qed
    let ?r = "partition_loop lessFn ?d (b1 + 1) (c1 - 1) pivot"
    have "\<exists>m zs. ?r = (m, m, snd (snd ?r)) \<and> fst (snd (snd ?r)) = zs \<and>
           b1 + 1 \<le> m \<and> m \<le> c1 - 1 \<and> permuted_in (b1 + 1) (c1 - 1) ys zs \<and>
           (\<forall>i. pivot < i \<and> i < m \<longrightarrow> key (zs ! i) < key (zs ! pivot)) \<and>
           (\<forall>i. m \<le> i \<and> i < hi1 \<longrightarrow> key (zs ! pivot) < key (zs ! i))"
    proof (rule "1.IH" [of b1 "snd ?s1" c1 "snd ?s2", unfolded ys])
      show "(b1, snd ?s1) = ?s1" by (simp add: b1_def)
      show "(c1, snd ?s2) = ?s2" by (simp add: c1_def)
      show "\<not> c1 \<le> b1" using lt by simp
      show "sortable lessFn key ys" using perm "1.prems"(1) by (rule sortable_permuted)
      show "pivot < b1 + 1" using pb1 by simp
      show "b1 + 1 \<le> c1 - 1" by (rule gap)
      show "c1 - 1 \<le> hi1" using S2(2) "1.prems"(4) by linarith
      show "hi1 \<le> length ys" using "1.prems"(5) leny by simp
      show "\<forall>i. pivot < i \<and> i < b1 + 1 \<longrightarrow> key (ys ! i) < key (ys ! pivot)" by (rule L')
      show "\<forall>i. c1 - 1 \<le> i \<and> i < hi1 \<longrightarrow> key (ys ! pivot) < key (ys ! i)" by (rule R')
    qed
    then obtain m zs where r: "?r = (m, m, snd (snd ?r))" "fst (snd (snd ?r)) = zs"
        "b1 + 1 \<le> m" "m \<le> c1 - 1" "permuted_in (b1 + 1) (c1 - 1) ys zs"
        "\<forall>i. pivot < i \<and> i < m \<longrightarrow> key (zs ! i) < key (zs ! pivot)"
        "\<forall>i. m \<le> i \<and> i < hi1 \<longrightarrow> key (zs ! pivot) < key (zs ! i)"
      by blast
    have "permuted_in b c ys zs"
      using S1(2) S2(2) by (intro permuted_in_widen [OF r(5)]) linarith+
    then have pz: "permuted_in b c ?xs zs" using perm permuted_in_trans by blast
    have "b \<le> m" "m \<le> c" using r(3,4) S1(2) S2(2) by linarith+
    then show ?thesis
      unfolding eq using r(1,2,6,7) pz by blast
  qed
qed


lemma protect_loop_unfold:
  "protect_loop lessFn data a b pivot =
     (let s1 = scan_down_not_less lessFn data a b pivot;
          s2 = scan_less lessFn (snd s1) a (fst s1) pivot
      in if fst s2 \<ge> fst s1 then (fst s2, fst s1, snd s2)
         else protect_loop lessFn (Swap (snd s2) (fst s2) (fst s1 - 1)) (fst s2 + 1)
                (fst s1 - 1) pivot)"
  by (subst protect_loop.simps) (simp add: case_prod_beta Let_def)

text \<open>
  When no element equals the pivot, the loop against duplicates and the test of three
  points change nothing.
\<close>

lemma protect_loop_nothing:
  assumes "sortable lessFn key (fst data)" and "pivot < a" and "a \<le> b"
    and "b \<le> length (fst data)"
    and "\<forall>i. pivot < i \<and> i < b \<longrightarrow> key (fst data ! i) < key (fst data ! pivot)"
  shows "fst (snd (protect_loop lessFn data a b pivot)) = b \<and>
         fst (snd (snd (protect_loop lessFn data a b pivot))) = fst data"
proof -
  let ?xs = "fst data"
  let ?s1 = "scan_down_not_less lessFn data a b pivot"
  define r1 where "r1 = fst ?s1"
  have S1: "fst (snd ?s1) = ?xs" "r1 \<le> b" "a \<le> r1"
      "\<forall>i. r1 \<le> i \<and> i < b \<longrightarrow> key (?xs ! pivot) < key (?xs ! i)"
    using scan_down_not_less_post [OF assms(1,2,4)] assms(3) unfolding r1_def by simp_all
  have r1: "r1 = b"
  proof (rule ccontr)
    assume "r1 \<noteq> b"
    then have "r1 \<le> b - 1 \<and> b - 1 < b" "pivot < b - 1 \<and> b - 1 < b"
      using S1(2,3) assms(2) by linarith+
    then have "key (?xs ! pivot) < key (?xs ! (b - 1))" "key (?xs ! (b - 1)) < key (?xs ! pivot)"
      using S1(4) assms(5) by blast+
    then show False by simp
  qed
  let ?s2 = "scan_less lessFn (snd ?s1) a r1 pivot"
  define r2 where "r2 = fst ?s2"
  have S2: "fst (snd ?s2) = ?xs" "a \<le> r2" "r2 \<le> b"
      "r2 < b \<longrightarrow> key (?xs ! pivot) < key (?xs ! r2)"
    using scan_less_post [of lessFn key "snd ?s1" pivot a r1] assms(1,2,4) S1(1,3) r1
    unfolding r2_def by simp_all
  have r2: "r2 = b"
  proof (rule ccontr)
    assume "r2 \<noteq> b"
    then have lt: "r2 < b" "pivot < r2 \<and> r2 < b" using S2(2,3) assms(2) by linarith+
    then have "key (?xs ! pivot) < key (?xs ! r2)" "key (?xs ! r2) < key (?xs ! pivot)"
      using S2(4) assms(5) by blast+
    then show False by simp
  qed
  have "protect_loop lessFn data a b pivot = (r2, r1, snd ?s2)"
    using r1 r2 by (subst protect_loop_unfold) (simp add: Let_def r1_def r2_def)
  then show ?thesis using r1 S2(1) by simp
qed

lemma doPivot_dups_nothing:
  assumes "sortable lessFn key (fst data)" and "hi \<le> length (fst data)"
    and "pivot < b - 1" and "b \<le> hi" and "pivot < m" and "m < hi"
    and "key (fst data ! pivot) < key (fst data ! (hi - 1))"
    and "key (fst data ! (b - 1)) < key (fst data ! pivot)"
    and "key (fst data ! m) < key (fst data ! pivot)"
  shows "\<exists>d. doPivot_dups lessFn data pivot hi m b c = (b, c, 0, d) \<and> fst d = fst data"
proof -
  let ?xs = "fst data"
  let ?l1 = "Less lessFn data pivot (hi - 1)"
  have l1: "fst ?l1" "fst (snd ?l1) = ?xs"
    using sortable_Less [OF assms(1), of pivot "hi - 1"] assms(2-7) by simp_all
  let ?l2 = "Less lessFn (snd ?l1) (b - 1) pivot"
  have l2: "fst ?l2" "fst (snd ?l2) = ?xs"
    using sortable_Less [of lessFn key "snd ?l1" "b - 1" pivot] assms(1-4,8) l1(2) by simp_all
  let ?l3 = "Less lessFn (snd ?l2) m pivot"
  have l3: "fst ?l3" "fst (snd ?l3) = ?xs"
    using sortable_Less [of lessFn key "snd ?l2" m pivot] assms(1,2,5,6,9) l2(2) by simp_all
  have "doPivot_dups lessFn data pivot hi m b c = (b, c, 0, snd ?l3)"
    using l1(1) l2(1) l3(1) by (simp add: doPivot_dups_def case_prod_beta)
  then show ?thesis using l3(2) by blast
qed


lemma ninther_permuted:
  assumes "sortable lessFn key (fst data)" and "40 < hi - lo" and "hi \<le> length (fst data)"
  shows "permuted_in lo hi (fst data)
    (fst (let s = (hi - lo) div 8;
              d = medianOfThree_func lessFn data lo (lo + s) (lo + 2 * s);
              d = medianOfThree_func lessFn d ((lo + hi) div 2) ((lo + hi) div 2 - s)
                    ((lo + hi) div 2 + s)
          in medianOfThree_func lessFn d (hi - 1) (hi - 1 - s) (hi - 1 - 2 * s)))"
proof -
  define s where "s = (hi - lo) div 8"
  define m where "m = (lo + hi) div 2"
  have s: "5 \<le> s" "8 * s \<le> hi - lo" using assms(2) unfolding s_def by arith+
  have m: "2 * m \<le> lo + hi" "lo + hi \<le> 2 * m + 1" unfolding m_def by arith+
  let ?d1 = "medianOfThree_func lessFn data lo (lo + s) (lo + 2 * s)"
  have p1: "permuted_in lo hi (fst data) (fst ?d1)"
    using medianOfThree_func_post [of lessFn key data lo "lo + s" lo "lo + 2 * s" hi]
      assms(1,3) s by simp
  have s1: "sortable lessFn key (fst ?d1)" using p1 assms(1) by (rule sortable_permuted)
  have l1: "hi \<le> length (fst ?d1)" using p1 assms(3) by (simp add: permuted_in_length)
  let ?d2 = "medianOfThree_func lessFn ?d1 m (m - s) (m + s)"
  have p2: "permuted_in lo hi (fst ?d1) (fst ?d2)"
  proof -
    have "lo \<le> m - s" "lo \<le> m" "lo \<le> m + s" "m - s < hi" "m < hi" "m + s < hi"
      "m - s \<noteq> m" "m \<noteq> m + s" "m - s \<noteq> m + s"
      using s m assms(2) by linarith+
    then show ?thesis
      using medianOfThree_func_post [of lessFn key ?d1 lo "m - s" m "m + s" hi] s1 l1 by simp
  qed
  have s2: "sortable lessFn key (fst ?d2)" using p2 s1 by (rule sortable_permuted)
  have l2: "hi \<le> length (fst ?d2)" using p2 l1 by (simp add: permuted_in_length)
  let ?d3 = "medianOfThree_func lessFn ?d2 (hi - 1) (hi - 1 - s) (hi - 1 - 2 * s)"
  have p3: "permuted_in lo hi (fst ?d2) (fst ?d3)"
  proof -
    have "lo \<le> hi - 1 - s" "lo \<le> hi - 1" "lo \<le> hi - 1 - 2 * s" "hi - 1 - s < hi"
      "hi - 1 < hi" "hi - 1 - 2 * s < hi"
      "hi - 1 - s \<noteq> hi - 1" "hi - 1 \<noteq> hi - 1 - 2 * s" "hi - 1 - s \<noteq> hi - 1 - 2 * s"
      using s assms(2) by linarith+
    then show ?thesis
      using medianOfThree_func_post
        [of lessFn key ?d2 lo "hi - 1 - s" "hi - 1" "hi - 1 - 2 * s" hi] s2 l2 by simp
  qed
  have "permuted_in lo hi (fst data) (fst ?d3)"
    using p1 p2 p3 permuted_in_trans by blast
  then show ?thesis
    by (simp add: Let_def s_def m_def)
qed

text \<open>
  \<open>doPivot_func\<close> on a range of more than 12 elements with different keys: the pivot
  ends at \<open>mlo\<close>, the elements before it in the range are below it, those after it are
  above it, and \<open>mhi\<close> is \<open>mlo + 1\<close>.
\<close>

lemma doPivot_func_post:
  assumes "sortable lessFn key (fst data)" and "12 < hi - lo" and "hi \<le> length (fst data)"
  shows "\<exists>mlo d. doPivot_func lessFn data lo hi = (mlo, mlo + 1, d) \<and>
           lo \<le> mlo \<and> mlo + 1 \<le> hi \<and> permuted_in lo hi (fst data) (fst d) \<and>
           (\<forall>i. lo \<le> i \<and> i < mlo \<longrightarrow> key (fst d ! i) < key (fst d ! mlo)) \<and>
           (\<forall>i. mlo + 1 \<le> i \<and> i < hi \<longrightarrow> key (fst d ! mlo) < key (fst d ! i))"
proof -
  define m where "m = (lo + hi) div 2"
  have m: "lo + 6 \<le> m" "m + 7 \<le> hi" using assms(2) unfolding m_def by arith+
  define d1 where "d1 = (if hi - lo > 40 then
      (let s = (hi - lo) div 8;
           d = medianOfThree_func lessFn data lo (lo + s) (lo + 2 * s);
           d = medianOfThree_func lessFn d m (m - s) (m + s)
       in medianOfThree_func lessFn d (hi - 1) (hi - 1 - s) (hi - 1 - 2 * s))
      else data)"
  have p1: "permuted_in lo hi (fst data) (fst d1)"
    using ninther_permuted [OF assms(1) _ assms(3), of lo]
    by (simp add: d1_def m_def permuted_in_refl)
  have s1: "sortable lessFn key (fst d1)" using p1 assms(1) by (rule sortable_permuted)
  have l1: "hi \<le> length (fst d1)" using p1 assms(3) by (simp add: permuted_in_length)
  define d2 where "d2 = medianOfThree_func lessFn d1 lo m (hi - 1)"
  define ys2 where "ys2 = fst d2"
  have med: "permuted_in lo hi (fst d1) ys2" "key (ys2 ! m) < key (ys2 ! lo)"
      "key (ys2 ! lo) < key (ys2 ! (hi - 1))"
    using medianOfThree_func_post [of lessFn key d1 lo m lo "hi - 1" hi] s1 l1 m
    unfolding ys2_def d2_def by simp_all
  have s2: "sortable lessFn key ys2" using med(1) s1 by (rule sortable_permuted)
  have l2: "hi \<le> length ys2" using med(1) l1 by (simp add: permuted_in_length)
  define S where "S = scan_less lessFn d2 (lo + 1) (hi - 1) lo"
  define a where "a = fst S"
  have SS: "fst (snd S) = ys2" "lo + 1 \<le> a" "a \<le> hi - 1"
      "\<forall>i. lo + 1 \<le> i \<and> i < a \<longrightarrow> key (ys2 ! i) < key (ys2 ! lo)"
    using scan_less_post [of lessFn key d2 lo "lo + 1" "hi - 1"] s2 l2 m
    unfolding S_def a_def ys2_def by simp_all
  define P where "P = partition_loop lessFn (snd S) a (hi - 1) lo"
  have "\<exists>b ys. P = (b, b, snd (snd P)) \<and> fst (snd (snd P)) = ys \<and> a \<le> b \<and> b \<le> hi - 1 \<and>
      permuted_in a (hi - 1) (fst (snd S)) ys \<and>
      (\<forall>i. lo < i \<and> i < b \<longrightarrow> key (ys ! i) < key (ys ! lo)) \<and>
      (\<forall>i. b \<le> i \<and> i < hi \<longrightarrow> key (ys ! lo) < key (ys ! i))"
    unfolding P_def
  proof (rule partition_loop_post)
    show "sortable lessFn key (fst (snd S))" using s2 SS(1) by simp
    show "lo < a" "a \<le> hi - 1" "hi - 1 \<le> hi" using SS(2,3) by linarith+
    show "hi \<le> length (fst (snd S))" using l2 SS(1) by simp
    show "\<forall>i. lo < i \<and> i < a \<longrightarrow> key (fst (snd S) ! i) < key (fst (snd S) ! lo)"
      using SS(1,4) by (simp add: Suc_le_eq)
    show "\<forall>i. hi - 1 \<le> i \<and> i < hi \<longrightarrow> key (fst (snd S) ! lo) < key (fst (snd S) ! i)"
    proof (intro allI impI)
      fix i assume "hi - 1 \<le> i \<and> i < hi"
      then have "i = hi - 1" by linarith
      then show "key (fst (snd S) ! lo) < key (fst (snd S) ! i)" using med(3) SS(1) by simp
    qed
  qed
  then obtain b ys3 where PP: "P = (b, b, snd (snd P))" "fst (snd (snd P)) = ys3" "a \<le> b"
      "b \<le> hi - 1" "permuted_in a (hi - 1) ys2 ys3"
      "\<forall>i. lo < i \<and> i < b \<longrightarrow> key (ys3 ! i) < key (ys3 ! lo)"
      "\<forall>i. b \<le> i \<and> i < hi \<longrightarrow> key (ys3 ! lo) < key (ys3 ! i)"
    unfolding SS(1) by blast
  define dP where "dP = snd (snd P)"
  have p3: "permuted_in lo hi ys2 ys3"
    using SS(2) by (intro permuted_in_widen [OF PP(5)]) linarith+
  have s3: "sortable lessFn key ys3" using p3 s2 by (rule sortable_permuted)
  have l3: "hi \<le> length ys3" using p3 l2 by (simp add: permuted_in_length)
  have L: "\<And>i. lo < i \<Longrightarrow> i < b \<Longrightarrow> key (ys3 ! i) < key (ys3 ! lo)" using PP(6) by blast
  have R: "\<And>i. b \<le> i \<Longrightarrow> i < hi \<Longrightarrow> key (ys3 ! lo) < key (ys3 ! i)" using PP(7) by blast
  define Q where "Q = (if \<not> hi - b < 5 \<and> hi - b < (hi - lo) div 4
      then (case doPivot_dups lessFn dP lo hi m b b of
              (b, c, dups, data) \<Rightarrow> (b, c, dups > 1, data))
      else (b, b, hi - b < 5, dP))"
  have QQ: "\<exists>pr dQ. Q = (b, b, pr, dQ) \<and> fst dQ = ys3"
  proof (cases "\<not> hi - b < 5 \<and> hi - b < (hi - lo) div 4")
    case False
    then have "Q = (b, b, hi - b < 5, dP)" unfolding Q_def by (simp only: if_False)
    moreover have "fst dP = ys3" using PP(2) by (simp add: dP_def)
    ultimately show ?thesis by blast
  next
    case True
    have "\<exists>d. doPivot_dups lessFn dP lo hi m b b = (b, b, 0, d) \<and> fst d = fst dP"
    proof (rule doPivot_dups_nothing [of lessFn key])
      show "sortable lessFn key (fst dP)" using s3 PP(2) by (simp add: dP_def)
      show "hi \<le> length (fst dP)" using l3 PP(2) by (simp add: dP_def)
      show lb: "lo < b - 1" using True assms(2) by arith
      show "b \<le> hi" using PP(4) by linarith
      show "lo < m" "m < hi" using m by linarith+
      show "key (fst dP ! lo) < key (fst dP ! (hi - 1))"
        using R [of "hi - 1"] PP(2,4) assms(2) by (simp add: dP_def)
      show "key (fst dP ! (b - 1)) < key (fst dP ! lo)"
        using L [of "b - 1"] lb PP(2) by (simp add: dP_def)
      have "m < b" using True assms(2) unfolding m_def by arith
      then show "key (fst dP ! m) < key (fst dP ! lo)"
        using L [of m] m PP(2) by (simp add: dP_def)
    qed
    then obtain d where d: "doPivot_dups lessFn dP lo hi m b b = (b, b, 0, d)" "fst d = fst dP"
      by blast
    have "Q = (b, b, False, d)" unfolding Q_def using True d(1) by simp
    moreover have "fst d = ys3" using d(2) PP(2) by (simp add: dP_def)
    ultimately show ?thesis by blast
  qed
  then obtain pr dQ where Q: "Q = (b, b, pr, dQ)" "fst dQ = ys3" by blast
  define T where "T = (if pr then protect_loop lessFn dQ a b lo else (a, b, dQ))"
  have TT: "fst (snd T) = b \<and> fst (snd (snd T)) = ys3"
  proof (cases pr)
    case False
    then show ?thesis using Q(2) by (simp add: T_def)
  next
    case True
    have "fst (snd (protect_loop lessFn dQ a b lo)) = b \<and>
        fst (snd (snd (protect_loop lessFn dQ a b lo))) = fst dQ"
    proof (rule protect_loop_nothing [of lessFn key])
      show "sortable lessFn key (fst dQ)" using s3 Q(2) by simp
      show "lo < a" "a \<le> b" using SS(2) PP(3) by linarith+
      show "b \<le> length (fst dQ)" using l3 PP(4) Q(2) by simp
      show "\<forall>i. lo < i \<and> i < b \<longrightarrow> key (fst dQ ! i) < key (fst dQ ! lo)"
        using PP(6) Q(2) by simp
    qed
    then show ?thesis using True Q(2) by (simp add: T_def)
  qed
  define dT where "dT = snd (snd T)"
  define zs where "zs = ys3[lo := ys3 ! (b - 1), b - 1 := ys3 ! lo]"
  have res: "doPivot_func lessFn data lo hi = (b - 1, b, Swap dT lo (b - 1))"
  proof -
    have "doPivot_func lessFn data lo hi =
        (case S of (a, data) \<Rightarrow>
           (case partition_loop lessFn data a (hi - 1) lo of
              (b, c, data) \<Rightarrow>
                (let protect = hi - c < 5 in
                 case (if \<not> protect \<and> hi - c < (hi - lo) div 4
                       then (case doPivot_dups lessFn data lo hi m b c of
                               (b, c, dups, data) \<Rightarrow> (b, c, dups > 1, data))
                       else (b, c, protect, data)) of
                   (b, c, protect, data) \<Rightarrow>
                     (case (if protect then protect_loop lessFn data a b lo
                            else (a, b, data)) of
                        (a, b, data) \<Rightarrow> (b - 1, c, Swap data lo (b - 1))))))"
      unfolding doPivot_func_def Let_def S_def d2_def d1_def m_def ..
    also have "S = (a, snd S)" by (simp add: a_def)
    also have "(case (a, snd S) of (a, data) \<Rightarrow>
           (case partition_loop lessFn data a (hi - 1) lo of
              (b, c, data) \<Rightarrow>
                (let protect = hi - c < 5 in
                 case (if \<not> protect \<and> hi - c < (hi - lo) div 4
                       then (case doPivot_dups lessFn data lo hi m b c of
                               (b, c, dups, data) \<Rightarrow> (b, c, dups > 1, data))
                       else (b, c, protect, data)) of
                   (b, c, protect, data) \<Rightarrow>
                     (case (if protect then protect_loop lessFn data a b lo
                            else (a, b, data)) of
                        (a, b, data) \<Rightarrow> (b - 1, c, Swap data lo (b - 1)))))) =
        (case P of
              (b, c, data) \<Rightarrow>
                (let protect = hi - c < 5 in
                 case (if \<not> protect \<and> hi - c < (hi - lo) div 4
                       then (case doPivot_dups lessFn data lo hi m b c of
                               (b, c, dups, data) \<Rightarrow> (b, c, dups > 1, data))
                       else (b, c, protect, data)) of
                   (b, c, protect, data) \<Rightarrow>
                     (case (if protect then protect_loop lessFn data a b lo
                            else (a, b, data)) of
                        (a, b, data) \<Rightarrow> (b - 1, c, Swap data lo (b - 1)))))"
      by (simp add: P_def)
    also have "\<dots> = (case Q of
                   (b, c, protect, data) \<Rightarrow>
                     (case (if protect then protect_loop lessFn data a b lo
                            else (a, b, data)) of
                        (a, b, data) \<Rightarrow> (b - 1, c, Swap data lo (b - 1))))"
      by (subst PP(1)) (simp add: Let_def Q_def dP_def)
    also have "\<dots> = (case T of (a, b', data) \<Rightarrow> (b' - 1, b, Swap data lo (b' - 1)))"
      by (simp add: Q(1) T_def)
    also have "\<dots> = (fst (snd T) - 1, b, Swap (snd (snd T)) lo (fst (snd T) - 1))"
      by (simp add: case_prod_beta)
    finally show ?thesis using TT by (simp add: dT_def)
  qed
  have fz: "fst (Swap dT lo (b - 1)) = zs"
    using TT by (simp add: zs_def dT_def)
  have b1: "lo \<le> b - 1" "b - 1 + 1 = b" "b - 1 < hi" "b \<le> hi"
    using SS(2) PP(3,4) by linarith+
  have p4: "permuted_in lo hi ys3 zs"
    unfolding zs_def using b1 l3 by (intro permuted_in_swap) linarith+
  have nth_zs: "\<And>i. i < hi \<Longrightarrow>
      zs ! i = (if i = b - 1 then ys3 ! lo else if i = lo then ys3 ! (b - 1) else ys3 ! i)"
    using b1 l3 by (simp add: zs_def nth_list_update)
  have below: "\<forall>i. lo \<le> i \<and> i < b - 1 \<longrightarrow> key (zs ! i) < key (zs ! (b - 1))"
  proof (intro allI impI)
    fix i assume h: "lo \<le> i \<and> i < b - 1"
    have zb: "zs ! (b - 1) = ys3 ! lo" using nth_zs [of "b - 1"] b1 by simp
    show "key (zs ! i) < key (zs ! (b - 1))"
    proof (cases "i = lo")
      case True
      then have "zs ! i = ys3 ! (b - 1)" using nth_zs [of i] h b1 by simp
      moreover have "lo < b - 1" "b - 1 < b" using h True by linarith+
      then have "key (ys3 ! (b - 1)) < key (ys3 ! lo)" by (rule L)
      ultimately show ?thesis using zb by simp
    next
      case False
      then have "zs ! i = ys3 ! i" using nth_zs [of i] h b1 by simp
      moreover have "lo < i" "i < b" using h False by linarith+
      then have "key (ys3 ! i) < key (ys3 ! lo)" by (rule L)
      ultimately show ?thesis using zb by simp
    qed
  qed
  have above: "\<forall>i. b \<le> i \<and> i < hi \<longrightarrow> key (zs ! (b - 1)) < key (zs ! i)"
  proof (intro allI impI)
    fix i assume h: "b \<le> i \<and> i < hi"
    have zb: "zs ! (b - 1) = ys3 ! lo" using nth_zs [of "b - 1"] b1 by simp
    have "i \<noteq> b - 1" "i \<noteq> lo" using h b1 by linarith+
    then have "zs ! i = ys3 ! i" using nth_zs [of i] h by simp
    moreover have "key (ys3 ! lo) < key (ys3 ! i)" using R [of i] h by simp
    ultimately show "key (zs ! (b - 1)) < key (zs ! i)" using zb by simp
  qed
  have perm: "permuted_in lo hi (fst data) zs"
    using p1 med(1) p3 p4 permuted_in_trans by blast
  show ?thesis
  proof (intro exI [of _ "b - 1"] exI [of _ "Swap dT lo (b - 1)"] conjI)
    show "doPivot_func lessFn data lo hi = (b - 1, b - 1 + 1, Swap dT lo (b - 1))"
      using res b1 by simp
    show "lo \<le> b - 1" "b - 1 + 1 \<le> hi" using b1 by linarith+
    show "permuted_in lo hi (fst data) (fst (Swap dT lo (b - 1)))"
      unfolding fz by (rule perm)
    show "\<forall>i. lo \<le> i \<and> i < b - 1 \<longrightarrow>
        key (fst (Swap dT lo (b - 1)) ! i) < key (fst (Swap dT lo (b - 1)) ! (b - 1))"
      unfolding fz by (rule below)
    show "\<forall>i. b - 1 + 1 \<le> i \<and> i < hi \<longrightarrow>
        key (fst (Swap dT lo (b - 1)) ! (b - 1)) < key (fst (Swap dT lo (b - 1)) ! i)"
      unfolding fz using above b1 by simp
  qed
qed


subsubsection \<open>Quicksort\<close>

lemma pivot_kept_left:
  assumes "permuted_in a m xs ys" and "m < b" and "b \<le> length xs"
    and "\<forall>i. a \<le> i \<and> i < m \<longrightarrow> key (xs ! i) < key (xs ! m)"
    and "\<forall>i. m + 1 \<le> i \<and> i < b \<longrightarrow> key (xs ! m) < key (xs ! i)"
  shows "(\<forall>i. a \<le> i \<and> i < m \<longrightarrow> key (ys ! i) < key (ys ! m)) \<and>
         (\<forall>i. m + 1 \<le> i \<and> i < b \<longrightarrow> key (ys ! m) < key (ys ! i))"
proof -
  have out: "\<And>i. m \<le> i \<Longrightarrow> i < b \<Longrightarrow> ys ! i = xs ! i"
    using permuted_in_outside [OF assms(1)] assms(3) by simp
  have ym: "ys ! m = xs ! m" using out [of m] assms(2) by simp
  have "m \<le> length xs" using assms(2,3) by linarith
  from permuted_in_all [OF assms(1) this, of "\<lambda>x. key x < key (xs ! m)"] assms(4)
  have "\<forall>i. a \<le> i \<and> i < m \<longrightarrow> key (ys ! i) < key (xs ! m)" by simp
  moreover have "\<forall>i. m + 1 \<le> i \<and> i < b \<longrightarrow> key (xs ! m) < key (ys ! i)"
    using assms(5) out by simp
  ultimately show ?thesis using ym by simp
qed

lemma pivot_kept_right:
  assumes "permuted_in (m + 1) b xs ys" and "m < b" and "b \<le> length xs"
    and "\<forall>i. a \<le> i \<and> i < m \<longrightarrow> key (xs ! i) < key (xs ! m)"
    and "\<forall>i. m + 1 \<le> i \<and> i < b \<longrightarrow> key (xs ! m) < key (xs ! i)"
  shows "(\<forall>i. a \<le> i \<and> i < m \<longrightarrow> key (ys ! i) < key (ys ! m)) \<and>
         (\<forall>i. m + 1 \<le> i \<and> i < b \<longrightarrow> key (ys ! m) < key (ys ! i))"
proof -
  have out: "\<And>i. i \<le> m \<Longrightarrow> ys ! i = xs ! i"
    using permuted_in_outside [OF assms(1)] assms(2,3) by simp
  have ym: "ys ! m = xs ! m" using out [of m] by simp
  from permuted_in_all [OF assms(1) assms(3), of "\<lambda>x. key (xs ! m) < key x"] assms(5)
  have "\<forall>i. m + 1 \<le> i \<and> i < b \<longrightarrow> key (xs ! m) < key (ys ! i)" by simp
  moreover have "\<forall>i. a \<le> i \<and> i < m \<longrightarrow> key (ys ! i) < key (xs ! m)"
    using assms(4) out by simp
  ultimately show ?thesis using ym by simp
qed

lemma sorted_in_outside:
  assumes "permuted_in c d xs ys" and "sorted_in key xs a b" and "b \<le> c \<or> d \<le> a"
    and "b \<le> length xs"
  shows "sorted_in key ys a b"
proof -
  have "\<And>i. a \<le> i \<Longrightarrow> i < b \<Longrightarrow> ys ! i = xs ! i"
    using permuted_in_outside [OF assms(1)] assms(3,4) by fastforce
  then show ?thesis using assms(2) unfolding sorted_in_def
    by (metis le_less_trans less_imp_le less_trans)
qed

lemma sorted_in_join:
  assumes "sorted_in key zs a m" and "sorted_in key zs (m + 1) b"
    and "\<forall>i. a \<le> i \<and> i < m \<longrightarrow> key (zs ! i) < key (zs ! m)"
    and "\<forall>i. m + 1 \<le> i \<and> i < b \<longrightarrow> key (zs ! m) < key (zs ! i)"
  shows "sorted_in key zs a b"
  unfolding sorted_in_def
proof (intro allI impI)
  fix i j assume h: "a \<le> i \<and> i < j \<and> j < b"
  consider "j < m" | "j = m" | "i < m" "m < j" | "i = m" | "m < i"
    by linarith
  then show "key (zs ! i) < key (zs ! j)"
  proof cases
    case 1
    then show ?thesis using assms(1) h by (simp add: sorted_in_def)
  next
    case 2
    then show ?thesis using assms(3) h by simp
  next
    case 3
    have "key (zs ! i) < key (zs ! m)" using assms(3) h 3 by simp
    moreover have "key (zs ! m) < key (zs ! j)" using assms(4) h 3 by simp
    ultimately show ?thesis by linarith
  next
    case 4
    then show ?thesis using assms(4) h by simp
  next
    case 5
    then show ?thesis using assms(2) h by (simp add: sorted_in_def)
  qed
qed

lemma quickSort_func_sorts:
  assumes "sortable lessFn key (fst data)" and "b \<le> length (fst data)"
  shows "permuted_in a b (fst data) (fst (quickSort_func lessFn data a b depth)) \<and>
         sorted_in key (fst (quickSort_func lessFn data a b depth)) a b"
  using assms
proof (induction depth arbitrary: data a b)
  case 0
  show ?case
  proof (cases "12 < b - a")
    case True
    then have "a < b" by linarith
    from heapSort_func_sorts [OF "0.prems"(1) this "0.prems"(2)] True
    show ?thesis by (simp add: quickSort_func.simps)
  next
    case False
    show ?thesis
    proof (cases "1 < b - a")
      case True
      then have "a < b" by linarith
      from small_range_sorts [OF "0.prems"(1) this "0.prems"(2)] False True
      show ?thesis by (simp add: quickSort_func.simps)
    next
      case F2: False
      then have "b \<le> Suc a" by linarith
      then show ?thesis using False F2 by (simp add: quickSort_func.simps permuted_in_refl sorted_in_empty)
    qed
  qed
next
  case (Suc depth)
  show ?case
  proof (cases "12 < b - a")
    case True
    from doPivot_func_post [OF Suc.prems(1) True Suc.prems(2)]
    obtain m d where piv: "doPivot_func lessFn data a b = (m, m + 1, d)" "a \<le> m" "m + 1 \<le> b"
        "permuted_in a b (fst data) (fst d)"
        "\<forall>i. a \<le> i \<and> i < m \<longrightarrow> key (fst d ! i) < key (fst d ! m)"
        "\<forall>i. m + 1 \<le> i \<and> i < b \<longrightarrow> key (fst d ! m) < key (fst d ! i)"
      by blast
    have s0: "sortable lessFn key (fst d)" using piv(4) Suc.prems(1) by (rule sortable_permuted)
    have l0: "b \<le> length (fst d)" using piv(4) Suc.prems(2) by (simp add: permuted_in_length)
    have mb: "m < b" "m \<le> length (fst d)" using piv(3) l0 by linarith+
    show ?thesis
    proof (cases "m - a < b - (m + 1)")
      case L: True
      define d1 where "d1 = quickSort_func lessFn d a m depth"
      define d2 where "d2 = quickSort_func lessFn d1 (m + 1) b depth"
      have res: "quickSort_func lessFn data a b (Suc depth) = d2"
        using True piv(1) L by (simp add: quickSort_func.simps d1_def d2_def)
      have i1: "permuted_in a m (fst d) (fst d1)" "sorted_in key (fst d1) a m"
        using Suc.IH [OF s0 mb(2), of a] by (simp_all add: d1_def)
      have s1: "sortable lessFn key (fst d1)" using i1(1) s0 by (rule sortable_permuted)
      have l1: "b \<le> length (fst d1)" using i1(1) l0 by (simp add: permuted_in_length)
      have i2: "permuted_in (m + 1) b (fst d1) (fst d2)" "sorted_in key (fst d2) (m + 1) b"
        using Suc.IH [OF s1 l1, of "m + 1"] by (simp_all add: d2_def)
      have k1: "(\<forall>i. a \<le> i \<and> i < m \<longrightarrow> key (fst d1 ! i) < key (fst d1 ! m)) \<and>
          (\<forall>i. m + 1 \<le> i \<and> i < b \<longrightarrow> key (fst d1 ! m) < key (fst d1 ! i))"
        using i1(1) mb(1) l0 piv(5,6) by (rule pivot_kept_left)
      have k2: "(\<forall>i. a \<le> i \<and> i < m \<longrightarrow> key (fst d2 ! i) < key (fst d2 ! m)) \<and>
          (\<forall>i. m + 1 \<le> i \<and> i < b \<longrightarrow> key (fst d2 ! m) < key (fst d2 ! i))"
        using i2(1) mb(1) l1 k1 [THEN conjunct1] k1 [THEN conjunct2] by (rule pivot_kept_right)
      have sl: "sorted_in key (fst d2) a m"
        using i2(1) i1(2) _ _ by (rule sorted_in_outside) (use mb l1 in simp_all)
      have srt: "sorted_in key (fst d2) a b"
        using sl i2(2) k2 [THEN conjunct1] k2 [THEN conjunct2] by (rule sorted_in_join)
      have "permuted_in a b (fst d) (fst d1)"
        using i1(1) mb(1) by (intro permuted_in_widen [OF i1(1)]) simp_all
      moreover have "permuted_in a b (fst d1) (fst d2)"
        using piv(2) by (intro permuted_in_widen [OF i2(1)]) simp_all
      ultimately have "permuted_in a b (fst data) (fst d2)"
        using piv(4) permuted_in_trans by blast
      then show ?thesis using srt res by simp
    next
      case R: False
      define d1 where "d1 = quickSort_func lessFn d (m + 1) b depth"
      define d2 where "d2 = quickSort_func lessFn d1 a m depth"
      have res: "quickSort_func lessFn data a b (Suc depth) = d2"
        using True piv(1) R by (simp add: quickSort_func.simps d1_def d2_def)
      have i1: "permuted_in (m + 1) b (fst d) (fst d1)" "sorted_in key (fst d1) (m + 1) b"
        using Suc.IH [OF s0 l0, of "m + 1"] by (simp_all add: d1_def)
      have s1: "sortable lessFn key (fst d1)" using i1(1) s0 by (rule sortable_permuted)
      have l1: "b \<le> length (fst d1)" using i1(1) l0 by (simp add: permuted_in_length)
      have ml: "m \<le> length (fst d1)" using l1 mb(1) by linarith
      have i2: "permuted_in a m (fst d1) (fst d2)" "sorted_in key (fst d2) a m"
        using Suc.IH [OF s1 ml, of a] by (simp_all add: d2_def)
      have k1: "(\<forall>i. a \<le> i \<and> i < m \<longrightarrow> key (fst d1 ! i) < key (fst d1 ! m)) \<and>
          (\<forall>i. m + 1 \<le> i \<and> i < b \<longrightarrow> key (fst d1 ! m) < key (fst d1 ! i))"
        using i1(1) mb(1) l0 piv(5,6) by (rule pivot_kept_right)
      have k2: "(\<forall>i. a \<le> i \<and> i < m \<longrightarrow> key (fst d2 ! i) < key (fst d2 ! m)) \<and>
          (\<forall>i. m + 1 \<le> i \<and> i < b \<longrightarrow> key (fst d2 ! m) < key (fst d2 ! i))"
        using i2(1) mb(1) l1 k1 [THEN conjunct1] k1 [THEN conjunct2] by (rule pivot_kept_left)
      have sr: "sorted_in key (fst d2) (m + 1) b"
        using i2(1) i1(2) _ l1 by (rule sorted_in_outside) simp
      have srt: "sorted_in key (fst d2) a b"
        using i2(2) sr k2 [THEN conjunct1] k2 [THEN conjunct2] by (rule sorted_in_join)
      have "permuted_in a b (fst d) (fst d1)"
        using piv(2) by (intro permuted_in_widen [OF i1(1)]) simp_all
      moreover have "permuted_in a b (fst d1) (fst d2)"
        using mb(1) by (intro permuted_in_widen [OF i2(1)]) simp_all
      ultimately have "permuted_in a b (fst data) (fst d2)"
        using piv(4) permuted_in_trans by blast
      then show ?thesis using srt res by simp
    qed
  next
    case False
    show ?thesis
    proof (cases "1 < b - a")
      case True
      then have "a < b" by linarith
      from small_range_sorts [OF Suc.prems(1) this Suc.prems(2)] False True
      show ?thesis by (simp add: quickSort_func.simps)
    next
      case F2: False
      then have "b \<le> Suc a" by linarith
      then show ?thesis using False F2 by (simp add: quickSort_func.simps permuted_in_refl sorted_in_empty)
    qed
  qed
qed

text \<open>\<open>sort.Slice\<close> sorts a slice of elements with different keys.\<close>

lemma sort_Slice_sorts:
  assumes "sortable lessFn key xs"
  shows "mset (fst (sort_Slice lessFn (xs, s))) = mset xs \<and>
         length (fst (sort_Slice lessFn (xs, s))) = length xs \<and>
         sorted_in key (fst (sort_Slice lessFn (xs, s))) 0 (length xs)"
  using quickSort_func_sorts [of lessFn key "(xs, s)" "length xs" 0 "maxDepth (length xs)"] assms
  by (simp add: sort_Slice_def permuted_in_def)


subsubsection \<open>The sorted slice is determined by the keys\<close>

lemma sorted_in_sorted_wrt:
  "sorted_in key xs 0 (length xs) \<Longrightarrow> sorted_wrt (<) (map key xs)"
  by (simp add: sorted_in_def sorted_wrt_iff_nth_less)

lemma sorted_in_unique:
  assumes "sorted_in key ys 0 (length ys)" and "sorted_in key zs 0 (length zs)"
    and "mset ys = mset zs" and "inj_on key (set ys)"
  shows "ys = zs"
proof -
  have s: "set ys = set zs" using assms(3) by (rule mset_eq_setD)
  have "sorted_wrt (<) (map key ys)" "sorted_wrt (<) (map key zs)"
    using assms(1,2) by (simp_all add: sorted_in_sorted_wrt)
  moreover have "set (map key ys) = set (map key zs)" using s by simp
  ultimately have "map key ys = map key zs"
    by (metis strict_sorted_equal)
  moreover have "inj_on key (set ys \<union> set zs)" using assms(4) s by simp
  ultimately show ?thesis by (simp add: inj_on_map_eq_map)
qed

lemma sorted_in_rev:
  assumes "sorted_in key ys 0 (length ys)"
    and "\<And>x y. x \<in> set ys \<Longrightarrow> y \<in> set ys \<Longrightarrow> key x < key y \<Longrightarrow> key' y < key' x"
  shows "sorted_in key' (rev ys) 0 (length ys)"
  unfolding sorted_in_def
proof (intro allI impI)
  fix i j assume h: "0 \<le> i \<and> i < j \<and> j < length ys"
  let ?n = "length ys"
  have r: "rev ys ! i = ys ! (?n - 1 - i)" "rev ys ! j = ys ! (?n - 1 - j)"
    using h by (simp_all add: rev_nth)
  have b: "?n - 1 - j < ?n - 1 - i" "?n - 1 - i < ?n" "?n - 1 - j < ?n" using h by linarith+
  then have "key (ys ! (?n - 1 - j)) < key (ys ! (?n - 1 - i))"
    using assms(1) by (simp add: sorted_in_def)
  moreover have "ys ! (?n - 1 - j) \<in> set ys" "ys ! (?n - 1 - i) \<in> set ys"
    using nth_mem [OF b(3)] nth_mem [OF b(2)] by blast+
  ultimately show "key' (rev ys ! i) < key' (rev ys ! j)"
    using assms(2) r by simp
qed

subsubsection \<open>Ranks as keys\<close>

lemma rank_in_card: "rank_in f xs x = card {z \<in> set xs. f z < f x}"
proof -
  have "rank_in f xs x = card ({z. f z < f x} \<inter> set (remdups xs))"
    unfolding rank_in_def by (rule distinct_length_filter) simp
  also have "{z. f z < f x} \<inter> set (remdups xs) = {z \<in> set xs. f z < f x}" by auto
  finally show ?thesis .
qed

lemma rank_in_less:
  assumes "x \<in> set xs" and "f x < f y"
  shows "rank_in f xs x < rank_in f xs y"
proof -
  have "{z \<in> set xs. f z < f x} \<subset> {z \<in> set xs. f z < f y}"
    using assms by (auto simp: less_le_not_le)
  moreover have "finite {z \<in> set xs. f z < f y}" by simp
  ultimately show ?thesis
    unfolding rank_in_card by (simp add: psubset_card_mono)
qed

lemma rank_in_iff:
  assumes "x \<in> set xs" and "y \<in> set xs" and "f x \<noteq> f y"
  shows "(rank_in f xs x < rank_in f xs y) = (f x < f y)"
proof
  assume r: "rank_in f xs x < rank_in f xs y"
  show "f x < f y"
  proof (rule ccontr)
    assume "\<not> f x < f y"
    then have "f y < f x" using assms(3) by simp
    then have "rank_in f xs y < rank_in f xs x" using assms(2) by (simp add: rank_in_less)
    then show False using r by simp
  qed
next
  assume "f x < f y"
  then show "rank_in f xs x < rank_in f xs y" using assms(1) by (simp add: rank_in_less)
qed

lemma rank_in_bound:
  assumes "x \<in> set xs"
  shows "rank_in f xs x < length xs"
proof -
  have "{z \<in> set xs. f z < f x} \<subset> set xs" using assms by auto
  then have "card {z \<in> set xs. f z < f x} < card (set xs)"
    by (simp add: psubset_card_mono)
  also have "\<dots> \<le> length xs" by (rule card_length)
  finally show ?thesis by (simp add: rank_in_card)
qed

text \<open>
  A comparison that is the order of a key \<open>f\<close> of any linearly ordered type on a slice
  where no two elements have the same key is keyed by the rank, and its negation by the
  reversed rank.
\<close>

lemma sortable_by_rank:
  fixes f :: "'a \<Rightarrow> 'k::linorder"
  assumes "\<And>x y s. fst (lessFn x y s) = (f x < f y)" and "distinct (map f xs)"
  shows "sortable lessFn (rank_in f xs) xs"
proof -
  have inj: "inj_on f (set xs)" and d: "distinct xs"
    using assms(2) by (simp_all add: distinct_map)
  have ne: "\<And>x y. x \<in> set xs \<Longrightarrow> y \<in> set xs \<Longrightarrow> x \<noteq> y \<Longrightarrow> f x \<noteq> f y"
    using inj by (auto dest: inj_onD)
  have "inj_on (rank_in f xs) (set xs)"
  proof (rule inj_onI)
    fix x y assume h: "x \<in> set xs" "y \<in> set xs" "rank_in f xs x = rank_in f xs y"
    show "x = y"
    proof (rule ccontr)
      assume "x \<noteq> y"
      then have n: "f x \<noteq> f y" using ne h by blast
      then have "f x < f y \<or> f y < f x" by auto
      then show False using rank_in_less [of x xs f y] rank_in_less [of y xs f x] h by auto
    qed
  qed
  moreover have "\<forall>x\<in>set xs. \<forall>y\<in>set xs. \<forall>s. x \<noteq> y \<longrightarrow>
      fst (lessFn x y s) = (rank_in f xs x < rank_in f xs y)"
    using assms(1) ne by (simp add: rank_in_iff)
  ultimately show ?thesis using d by (simp add: sortable_def keyed_def)
qed

lemma sortable_by_reversed_rank:
  fixes f :: "'a \<Rightarrow> 'k::linorder"
  assumes "\<And>x y s. fst (lessFn x y s) = (\<not> f x < f y)" and "distinct (map f xs)"
  shows "sortable lessFn (\<lambda>x. length xs - rank_in f xs x) xs"
proof -
  have inj: "inj_on f (set xs)" and d: "distinct xs"
    using assms(2) by (simp_all add: distinct_map)
  have ne: "\<And>x y. x \<in> set xs \<Longrightarrow> y \<in> set xs \<Longrightarrow> x \<noteq> y \<Longrightarrow> f x \<noteq> f y"
    using inj by (auto dest: inj_onD)
  have rev: "\<And>x y. x \<in> set xs \<Longrightarrow> y \<in> set xs \<Longrightarrow>
      (length xs - rank_in f xs x < length xs - rank_in f xs y) =
      (rank_in f xs y < rank_in f xs x)"
    using rank_in_bound [of _ xs f] by (metis diff_less_mono2 less_imp_diff_less
        linorder_neqE_nat not_less_iff_gr_or_eq)
  have "inj_on (\<lambda>x. length xs - rank_in f xs x) (set xs)"
  proof (rule inj_onI)
    fix x y assume h: "x \<in> set xs" "y \<in> set xs"
      "length xs - rank_in f xs x = length xs - rank_in f xs y"
    have e: "rank_in f xs x = rank_in f xs y"
      using h(3) rank_in_bound [OF h(1), of f] rank_in_bound [OF h(2), of f] by linarith
    show "x = y"
    proof (rule ccontr)
      assume "x \<noteq> y"
      then have n: "f x \<noteq> f y" using ne h by blast
      then have "f x < f y \<or> f y < f x" by auto
      then show False using rank_in_less [of x xs f y] rank_in_less [of y xs f x] h(1,2) e
        by auto
    qed
  qed
  moreover have "\<forall>x\<in>set xs. \<forall>y\<in>set xs. \<forall>s. x \<noteq> y \<longrightarrow>
      fst (lessFn x y s) = (length xs - rank_in f xs x < length xs - rank_in f xs y)"
  proof (intro ballI allI impI)
    fix x y s assume h: "x \<in> set xs" "y \<in> set xs" "x \<noteq> y"
    have n: "f x \<noteq> f y" using ne h by blast
    have "fst (lessFn x y s) = (f y < f x)" using assms(1) n by auto
    also have "\<dots> = (rank_in f xs y < rank_in f xs x)"
      using rank_in_iff [of y xs x f] h n by simp
    finally show "fst (lessFn x y s) =
        (length xs - rank_in f xs x < length xs - rank_in f xs y)"
      using rev [OF h(1,2)] by simp
  qed
  ultimately show ?thesis using d by (simp add: sortable_def keyed_def)
qed

text \<open>
  Sorting with the comparison of a key, then with the negated comparison, gives the
  reverse, on a slice where no two elements have the same key.
\<close>

lemma sort_Slice_negated_reverses:
  fixes f :: "'a \<Rightarrow> 'k::linorder"
  assumes A: "\<And>x y s. fst (lessA x y s) = (f x < f y)"
    and B: "\<And>x y s. fst (lessB x y s) = (\<not> f x < f y)"
    and d: "distinct (map f xs)"
  shows "fst (sort_Slice lessB (fst (sort_Slice lessA (xs, s)), s')) =
         rev (fst (sort_Slice lessA (xs, s)))"
proof -
  define ys where "ys = fst (sort_Slice lessA (xs, s))"
  define zs where "zs = fst (sort_Slice lessB (ys, s'))"
  define k where "k = rank_in f xs"
  define k' where "k' = (\<lambda>x. length ys - rank_in f ys x)"
  have "sortable lessA k xs" unfolding k_def using A d by (rule sortable_by_rank)
  from sort_Slice_sorts [OF this, of s]
  have ys: "mset ys = mset xs" "length ys = length xs" "sorted_in k ys 0 (length ys)"
    by (simp_all add: ys_def)
  have sy: "set ys = set xs" using ys(1) by (rule mset_eq_setD)
  have "mset (map f ys) = mset (map f xs)" using ys(1) by simp
  then have dy: "distinct (map f ys)" using d by (metis mset_eq_imp_distinct_iff)
  have sb: "sortable lessB k' ys" unfolding k'_def using B dy by (rule sortable_by_reversed_rank)
  from sort_Slice_sorts [OF this, of s']
  have zs: "mset zs = mset ys" "length zs = length ys" "sorted_in k' zs 0 (length zs)"
    by (simp_all add: zs_def)
  have inj: "inj_on f (set ys)" using dy by (simp add: distinct_map)
  have "sorted_in k' (rev ys) 0 (length ys)"
  proof (rule sorted_in_rev [OF ys(3)])
    fix x y assume h: "x \<in> set ys" "y \<in> set ys" "k x < k y"
    have hx: "x \<in> set xs" "y \<in> set xs" using h sy by simp_all
    have "x \<noteq> y" using h(3) by auto
    then have n: "f x \<noteq> f y" using inj h(1,2) by (auto dest: inj_onD)
    then have "f x < f y" using h(3) rank_in_iff [OF hx n] by (simp add: k_def)
    then have "rank_in f ys x < rank_in f ys y" using h(1) by (simp add: rank_in_less)
    moreover have "rank_in f ys y < length ys" using h(2) by (rule rank_in_bound)
    ultimately show "k' y < k' x" unfolding k'_def by linarith
  qed
  then have "sorted_in k' (rev ys) 0 (length (rev ys))" by simp
  moreover have "mset zs = mset (rev ys)" using zs(1) by simp
  moreover have "inj_on k' (set zs)"
    using sb zs(1) by (metis sortable_def keyed_def mset_eq_setD)
  ultimately have "zs = rev ys"
    using zs(3) by (intro sorted_in_unique [of k']) simp_all
  then show ?thesis by (simp add: zs_def ys_def)
qed


subsubsection \<open>The list command\<close>

lemma sort_tunnels_sort_Slice:
  "sort_tunnels sortBy invert ts =
     fst (sort_Slice (listCommand_less (list_ctx sortBy invert) sortBy) (ts, False))"
  by (simp add: sort_tunnels_def listCommand_sort_def list_ctx_flags Let_def case_prod_beta)

lemma no_ties_distinct:
  fixes f :: "Tunnel \<Rightarrow> 'k::linorder"
  assumes "\<And>x y. fst (listCommand_less (list_ctx sortBy False) sortBy x y False) = (f x < f y)"
  shows "no_ties sortBy ts \<Longrightarrow> distinct (map f ts)"
proof (induction ts)
  case Nil
  show ?case by simp
next
  case (Cons t ts)
  have "\<forall>u\<in>set ts. f t \<noteq> f u"
    using Cons.prems assms by (auto simp: list_all_iff tied_def)
  then have "f t \<notin> f ` set ts" by auto
  then show ?case using Cons by simp
qed

lemma sort_tunnels_reverses_for_key:
  fixes f :: "Tunnel \<Rightarrow> 'k::linorder"
  assumes k: "\<And>x y s. fst (listCommand_less (list_ctx sortBy False) sortBy x y s) = (f x < f y)"
    and n: "no_ties sortBy ts"
  shows "sort_tunnels sortBy True (sort_tunnels sortBy False ts) =
         rev (sort_tunnels sortBy False ts)"
proof -
  have B: "\<And>x y s. fst (listCommand_less (list_ctx sortBy True) sortBy x y s) = (\<not> f x < f y)"
    by (subst listCommand_less_invert) (simp add: k)
  have d: "distinct (map f ts)" using k n by (rule no_ties_distinct)
  show ?thesis
    unfolding sort_tunnels_sort_Slice using k B d by (rule sort_Slice_negated_reverses)
qed

lemma listCommand_less_key:
  "fst (listCommand_less (list_ctx sortBy False) sortBy x y s) =
     (if sortBy = ''name'' then Name x < Name y
      else if sortBy = ''id'' then UUID_String (Tunnel.ID x) < UUID_String (Tunnel.ID y)
      else if sortBy = ''createdAt'' then Time_Unix (CreatedAt x) < Time_Unix (CreatedAt y)
      else if sortBy = ''deletedAt'' then Time_Unix (DeletedAt x) < Time_Unix (DeletedAt y)
      else if sortBy = ''numConnections''
        then length (Tunnel.Connections x) < length (Tunnel.Connections y)
      else Name x < Name y)"
  by (simp add: listCommand_less_def list_ctx_flags)

lemma sort_tunnels_reverses:
  assumes "no_ties sortBy ts"
  shows "sort_tunnels sortBy True (sort_tunnels sortBy False ts) =
         rev (sort_tunnels sortBy False ts)"
proof -
  consider "sortBy = ''name''" | "sortBy = ''id''" | "sortBy = ''createdAt''"
    | "sortBy = ''deletedAt''" | "sortBy = ''numConnections''"
    | "sortBy \<noteq> ''name''" "sortBy \<noteq> ''id''" "sortBy \<noteq> ''createdAt''"
      "sortBy \<noteq> ''deletedAt''" "sortBy \<noteq> ''numConnections''"
    by blast
  then show ?thesis
  proof cases
    case 1
    show ?thesis
      by (rule sort_tunnels_reverses_for_key [of sortBy Name, OF _ assms])
        (simp add: listCommand_less_key 1)
  next
    case 2
    show ?thesis
      by (rule sort_tunnels_reverses_for_key
            [of sortBy "\<lambda>t. UUID_String (Tunnel.ID t)", OF _ assms])
        (simp add: listCommand_less_key 2)
  next
    case 3
    show ?thesis
      by (rule sort_tunnels_reverses_for_key
            [of sortBy "\<lambda>t. Time_Unix (CreatedAt t)", OF _ assms])
        (simp add: listCommand_less_key 3)
  next
    case 4
    show ?thesis
      by (rule sort_tunnels_reverses_for_key
            [of sortBy "\<lambda>t. Time_Unix (DeletedAt t)", OF _ assms])
        (simp add: listCommand_less_key 4)
  next
    case 5
    show ?thesis
      by (rule sort_tunnels_reverses_for_key
            [of sortBy "\<lambda>t. length (Tunnel.Connections t)", OF _ assms])
        (simp add: listCommand_less_key 5)
  next
    case 6
    show ?thesis
      by (rule sort_tunnels_reverses_for_key [of sortBy Name, OF _ assms])
        (simp add: listCommand_less_key 6)
  qed
qed

lemma three_tunnels_no_ties: "no_ties ''name'' three_tunnels"
  by code_simp

lemma three_tunnels_sorted:
  "sort_tunnels ''name'' False three_tunnels = [tunnel 3 ''a'', tunnel 1 ''b'', tunnel 2 ''c'']"
  by code_simp

text \<open>
  Claim C1. Sorting a list of tunnels and then sorting the result with the order
  inverted gives the exact reverse of the first result, for every sort key, when no two
  tunnels of the list are tied under the key; and the flag \<open>invert-sort\<close> negates the
  result of the comparison only: the comparison made and the value left in
  \<open>invalidSortField\<close> are those of the sort that is not inverted. Without the condition
  on ties the first part fails, as the seven tunnels above show: the inverted comparison
  is \<open>\<ge>\<close> on the key, which is not a strict order, and the library sort leaves two
  tunnels of the same name in the same order both times.
\<close>

theorem inverted_sort_reverses_without_ties:
  "(no_ties sortBy tunnels \<longrightarrow>
      sort_tunnels sortBy True (sort_tunnels sortBy False tunnels) =
        rev (sort_tunnels sortBy False tunnels)) \<and>
   listCommand_less (list_ctx sortBy True) sortBy ti tj s =
     (\<not> fst (listCommand_less (list_ctx sortBy False) sortBy ti tj s),
      snd (listCommand_less (list_ctx sortBy False) sortBy ti tj s))"
  using sort_tunnels_reverses listCommand_less_invert by blast

theorem inverted_sort_reverses_without_ties_witness:
  "no_ties ''name'' three_tunnels \<and>
   sort_tunnels ''name'' False three_tunnels =
     [tunnel 3 ''a'', tunnel 1 ''b'', tunnel 2 ''c''] \<and>
   sort_tunnels ''name'' True (sort_tunnels ''name'' False three_tunnels) =
     [tunnel 2 ''c'', tunnel 1 ''b'', tunnel 3 ''a'']"
  using inverted_sort_reverses_without_ties [of "''name''" three_tunnels]
    three_tunnels_no_ties
  by (simp add: three_tunnels_sorted)

end
